theory Spec2Isabelle
  imports Main "HOL-Library.AList" "HOL-Library.Sublist" "HOL-Library.Word"
begin

unbundle bit_operations_syntax

section \<open>The polling file-system watcher (qfilesystemwatcher\_polling.cpp)\<close>

subsection \<open>What the engine sees of the world\<close>

text \<open>
  The engine looks at the file system only through \<^verbatim>\<open>QFileInfo\<close>: it constructs one from a
  path and asks \<^verbatim>\<open>exists()\<close> and \<^verbatim>\<open>isDir()\<close>, compares it with a stored snapshot and, for
  directories, calls \<^verbatim>\<open>refresh()\<close>. A \<^verbatim>\<open>QFileInfo\<close> is therefore the answer of one stat of a
  path: whether the entry exists, whether it is a directory, and \<open>fi_meta\<close>, which stands
  for everything else that can be asked of it (owner, permissions, time stamps,
  directory entries). The file system at one moment is a function from paths to such
  answers.

  The value type of the engine's two hashes is declared in
  qfilesystemwatcher\_polling\_p.h, which is not among the sources, with its conversion
  from \<^verbatim>\<open>QFileInfo\<close> and its \<^verbatim>\<open>!=\<close> against a \<^verbatim>\<open>QFileInfo\<close>. They are parameters of the model: a
  snapshot is a value of any type \<open>'s\<close>, \<open>snapshot\<close> makes the snapshot that is stored when
  the code assigns or inserts a \<^verbatim>\<open>QFileInfo\<close>, and \<open>differs snap fi\<close> is \<^verbatim>\<open>snap != fi\<close>.
\<close>

record 'm QFileInfo =
  fi_exists :: bool
  fi_isDir :: bool
  fi_meta :: 'm

type_synonym 'm filesystem = "string \<Rightarrow> 'm QFileInfo"

text \<open>\<^verbatim>\<open>path.endsWith(u'/')\<close>\<close>

definition endsWith :: "string \<Rightarrow> char \<Rightarrow> bool" where
  "endsWith s c = (s \<noteq> [] \<and> last s = c)"

text \<open>\<^verbatim>\<open>s.startsWith(c)\<close> for a single character.\<close>

definition startsWith :: "string \<Rightarrow> char \<Rightarrow> bool" where
  "startsWith s c = (s \<noteq> [] \<and> hd s = c)"

subsection \<open>The engine\<close>

text \<open>
  The members \<^verbatim>\<open>files\<close> and \<^verbatim>\<open>directories\<close> are hashes from path to snapshot; \<^verbatim>\<open>timer\<close> is a
  \<^verbatim>\<open>QTimer\<close>, of which the code uses \<^verbatim>\<open>isActive()\<close>, \<^verbatim>\<open>start()\<close> and \<^verbatim>\<open>stop()\<close> only. A hash is
  an association list: its order is the order in which the hash is iterated, which Qt
  leaves open, and what is stated below about a hash is about its keys and values. \<^verbatim>\<open>insert\<close> is \<open>AList.update\<close> (an
  existing key keeps its place and takes the new value), \<^verbatim>\<open>remove\<close> is \<open>AList.delete\<close>.
\<close>

record 's engine =
  files :: "(string \<times> 's) list"
  directories :: "(string \<times> 's) list"
  timer_isActive :: bool

text \<open>A freshly constructed engine: both hashes empty, the timer not started.\<close>

definition new_engine :: "'s engine" where
  "new_engine = \<lparr>files = [], directories = [], timer_isActive = False\<rparr>"

text \<open>\<^verbatim>\<open>hash.contains(key)\<close>, which is also the truth value of \<^verbatim>\<open>hash.remove(key)\<close>.\<close>

definition hash_contains :: "(string \<times> 'v) list \<Rightarrow> string \<Rightarrow> bool" where
  "hash_contains h k = (k \<in> set (map fst h))"

text \<open>
  The state one call works on: the engine, the caller's two lists (passed by pointer
  and changed in place) and the list \<^verbatim>\<open>unhandled\<close> that the call returns.
\<close>

record 's call =
  eng :: "'s engine"
  c_files :: "string list"
  c_directories :: "string list"
  unhandled :: "string list"

subsection \<open>addPaths\<close>

text \<open>
  One round of the loop of \<^verbatim>\<open>addPaths\<close>. The scope guard pushes \<^verbatim>\<open>path\<close> onto \<^verbatim>\<open>unhandled\<close> at
  each \<^verbatim>\<open>continue\<close>; it is dismissed at the end of the body.
\<close>

definition addPaths_body ::
  "('m QFileInfo \<Rightarrow> 's) \<Rightarrow> 'm filesystem \<Rightarrow> 's call \<Rightarrow> string \<Rightarrow> 's call" where
  "addPaths_body snapshot fs st path =
     (let fi = fs path in
      if \<not> fi_exists fi then st\<lparr>unhandled := unhandled st @ [path]\<rparr>
      else if fi_isDir fi then
        (if path \<in> set (c_directories st) then st\<lparr>unhandled := unhandled st @ [path]\<rparr>
         else
           let fi' = (if \<not> endsWith path CHR ''/'' then fs (path @ ''/'') else fi) in
           st\<lparr>c_directories := c_directories st @ [path],
              eng := (eng st)\<lparr>directories :=
                        AList.update path (snapshot fi') (directories (eng st))\<rparr>\<rparr>)
      else
        (if path \<in> set (c_files st) then st\<lparr>unhandled := unhandled st @ [path]\<rparr>
         else
           st\<lparr>c_files := c_files st @ [path],
              eng := (eng st)\<lparr>files := AList.update path (snapshot fi) (files (eng st))\<rparr>\<rparr>))"

text \<open>The timer is started after the loop when something is watched and it does not run.\<close>

definition start_timer :: "'s engine \<Rightarrow> 's engine" where
  "start_timer e =
     (if (files e \<noteq> [] \<or> directories e \<noteq> []) \<and> \<not> timer_isActive e
      then e\<lparr>timer_isActive := True\<rparr> else e)"

definition addPaths ::
  "('m QFileInfo \<Rightarrow> 's) \<Rightarrow> 'm filesystem \<Rightarrow> string list \<Rightarrow> string list \<Rightarrow> string list
     \<Rightarrow> 's engine \<Rightarrow> 's call" where
  "addPaths snapshot fs paths fls dirs e =
     (let st = foldl (addPaths_body snapshot fs)
                 \<lparr>eng = e, c_files = fls, c_directories = dirs, unhandled = []\<rparr> paths
      in st\<lparr>eng := start_timer (eng st)\<rparr>)"

subsection \<open>removePaths\<close>

definition removePaths_body :: "'s call \<Rightarrow> string \<Rightarrow> 's call" where
  "removePaths_body st path =
     (if hash_contains (directories (eng st)) path then
        st\<lparr>eng := (eng st)\<lparr>directories := AList.delete path (directories (eng st))\<rparr>,
           c_directories := removeAll path (c_directories st)\<rparr>
      else if hash_contains (files (eng st)) path then
        st\<lparr>eng := (eng st)\<lparr>files := AList.delete path (files (eng st))\<rparr>,
           c_files := removeAll path (c_files st)\<rparr>
      else st\<lparr>unhandled := unhandled st @ [path]\<rparr>)"

definition stop_timer :: "'s engine \<Rightarrow> 's engine" where
  "stop_timer e =
     (if files e = [] \<and> directories e = [] then e\<lparr>timer_isActive := False\<rparr> else e)"

definition removePaths ::
  "string list \<Rightarrow> string list \<Rightarrow> string list \<Rightarrow> 's engine \<Rightarrow> 's call" where
  "removePaths paths fls dirs e =
     (let st = foldl removePaths_body
                 \<lparr>eng = e, c_files = fls, c_directories = dirs, unhandled = []\<rparr> paths
      in st\<lparr>eng := stop_timer (eng st)\<rparr>)"

subsection \<open>Sequences of calls\<close>

text \<open>
  A call of \<^verbatim>\<open>addPaths\<close> comes with the file system of its moment and the caller's two
  lists; a call of \<^verbatim>\<open>removePaths\<close> with the caller's two lists.
\<close>

datatype 'm request =
  AddPaths "'m filesystem" "string list" "string list" "string list"
| RemovePaths "string list" "string list" "string list"

fun serve :: "('m QFileInfo \<Rightarrow> 's) \<Rightarrow> 's engine \<Rightarrow> 'm request \<Rightarrow> 's engine" where
  "serve snapshot e (AddPaths fs paths fls dirs) = eng (addPaths snapshot fs paths fls dirs e)"
| "serve snapshot e (RemovePaths paths fls dirs) = eng (removePaths paths fls dirs e)"

definition timer_invariant :: "'s engine \<Rightarrow> bool" where
  "timer_invariant e = (timer_isActive e = (files e \<noteq> [] \<or> directories e \<noteq> []))"

subsection \<open>timeout\<close>

text \<open>The two signals of the engine; the second argument is \<^verbatim>\<open>removed\<close>.\<close>

datatype signal = fileChanged string bool | directoryChanged string bool

text \<open>
  The first loop of \<^verbatim>\<open>timeout\<close>, over the hash \<^verbatim>\<open>files\<close>: the result is the hash after the
  loop and the signals emitted, in the order of emission.
\<close>

fun timeout_files ::
  "('m QFileInfo \<Rightarrow> 's) \<Rightarrow> ('s \<Rightarrow> 'm QFileInfo \<Rightarrow> bool) \<Rightarrow> 'm filesystem
     \<Rightarrow> (string \<times> 's) list \<Rightarrow> (string \<times> 's) list \<times> signal list" where
  "timeout_files snapshot differs fs [] = ([], [])"
| "timeout_files snapshot differs fs ((path, snap) # rest) =
     (let fi = fs path;
          (rest', sigs) = timeout_files snapshot differs fs rest
      in if \<not> fi_exists fi then (rest', fileChanged path True # sigs)
         else if differs snap fi
         then ((path, snapshot fi) # rest', fileChanged path False # sigs)
         else ((path, snap) # rest', sigs))"

text \<open>
  The \<^verbatim>\<open>QFileInfo\<close> a directory is looked at through: of \<^verbatim>\<open>path + '/'\<close> unless the path ends
  with a slash already.
\<close>

definition dir_info :: "'m filesystem \<Rightarrow> string \<Rightarrow> 'm QFileInfo" where
  "dir_info fs path = (if \<not> endsWith path CHR ''/'' then fs (path @ ''/'') else fs path)"

text \<open>
  The second loop, over \<^verbatim>\<open>directories\<close>. \<^verbatim>\<open>fi.refresh()\<close> reads the file system once more, at
  a later moment: \<open>fs'\<close> is the file system of that moment.
\<close>

fun timeout_directories ::
  "('m QFileInfo \<Rightarrow> 's) \<Rightarrow> ('s \<Rightarrow> 'm QFileInfo \<Rightarrow> bool) \<Rightarrow> 'm filesystem \<Rightarrow> 'm filesystem
     \<Rightarrow> (string \<times> 's) list \<Rightarrow> (string \<times> 's) list \<times> signal list" where
  "timeout_directories snapshot differs fs fs' [] = ([], [])"
| "timeout_directories snapshot differs fs fs' ((path, snap) # rest) =
     (let fi = dir_info fs path;
          (rest', sigs) = timeout_directories snapshot differs fs fs' rest
      in if \<not> fi_exists fi then (rest', directoryChanged path True # sigs)
         else if differs snap fi then
           (let fi = dir_info fs' path
            in if \<not> fi_exists fi then (rest', directoryChanged path True # sigs)
               else ((path, snapshot fi) # rest', directoryChanged path False # sigs))
         else ((path, snap) # rest', sigs))"

definition timeout ::
  "('m QFileInfo \<Rightarrow> 's) \<Rightarrow> ('s \<Rightarrow> 'm QFileInfo \<Rightarrow> bool) \<Rightarrow> 'm filesystem \<Rightarrow> 'm filesystem
     \<Rightarrow> 's engine \<Rightarrow> 's engine \<times> signal list" where
  "timeout snapshot differs fs fs' e =
     (let (fls, sigs1) = timeout_files snapshot differs fs (files e);
          (dirs, sigs2) = timeout_directories snapshot differs fs fs' (directories e)
      in (e\<lparr>files := fls, directories := dirs\<rparr>, sigs1 @ sigs2))"

text \<open>The signals of one tick that are about the file, or the directory, \<open>p\<close>.\<close>

definition file_signals :: "string \<Rightarrow> signal list \<Rightarrow> signal list" where
  "file_signals p sigs = filter (\<lambda>s. s = fileChanged p True \<or> s = fileChanged p False) sigs"

definition directory_signals :: "string \<Rightarrow> signal list \<Rightarrow> signal list" where
  "directory_signals p sigs =
     filter (\<lambda>s. s = directoryChanged p True \<or> s = directoryChanged p False) sigs"

subsection \<open>What the calls are measured against\<close>

text \<open>
  \<^verbatim>\<open>addPaths\<close> turns a path down when it does not exist, or when the caller's list for its
  kind holds it already.
\<close>

definition turned_down :: "'m filesystem \<Rightarrow> string list \<Rightarrow> string list \<Rightarrow> string \<Rightarrow> bool" where
  "turned_down fs fls dirs p =
     (\<not> fi_exists (fs p) \<or> (if fi_isDir (fs p) then p \<in> set dirs else p \<in> set fls))"

text \<open>
  Whether a path is a key of the hash \<^verbatim>\<open>directories\<close>, of the hash \<^verbatim>\<open>files\<close>, as a number 0
  or 1, and in how many of the two hashes it is a key.
\<close>

definition as_directory :: "'s engine \<Rightarrow> string \<Rightarrow> nat" where
  "as_directory e p = (if hash_contains (directories e) p then 1 else 0)"

definition as_file :: "'s engine \<Rightarrow> string \<Rightarrow> nat" where
  "as_file e p = (if hash_contains (files e) p then 1 else 0)"

definition watched_in :: "'s engine \<Rightarrow> string \<Rightarrow> nat" where
  "watched_in e p = as_directory e p + as_file e p"

text \<open>
  A small file system to run the calls on: a file \<open>a\<close>, a directory \<open>d\<close>, nothing else.
\<close>

definition demo_fs :: "nat filesystem" where
  "demo_fs p =
     (if p = ''a'' then \<lparr>fi_exists = True, fi_isDir = False, fi_meta = 1\<rparr>
      else if p = ''d'' \<or> p = ''d/'' then \<lparr>fi_exists = True, fi_isDir = True, fi_meta = 2\<rparr>
      else \<lparr>fi_exists = False, fi_isDir = False, fi_meta = 0\<rparr>)"

text \<open>The same after \<open>a\<close> was written to and \<open>d\<close> was deleted.\<close>

definition demo_fs_later :: "nat filesystem" where
  "demo_fs_later p =
     (if p = ''a'' then \<lparr>fi_exists = True, fi_isDir = False, fi_meta = 3\<rparr>
      else \<lparr>fi_exists = False, fi_isDir = False, fi_meta = 0\<rparr>)"

text \<open>
  The first file system again, but for the answer for \<open>d\<close> with a trailing slash, which is
  that of a directory changed since: the path without the slash answers as the path
  with the slash did before.
\<close>

definition demo_fs_slash :: "nat filesystem" where
  "demo_fs_slash p =
     (if p = ''d/'' then \<lparr>fi_exists = True, fi_isDir = True, fi_meta = 5\<rparr> else demo_fs p)"

text \<open>
  Snapshots to run the calls with: a snapshot keeps all of the \<^verbatim>\<open>QFileInfo\<close>, and differs
  from a \<^verbatim>\<open>QFileInfo\<close> when they are not equal.
\<close>

definition demo_snapshot :: "nat QFileInfo \<Rightarrow> nat QFileInfo" where
  "demo_snapshot fi = fi"

definition demo_differs :: "nat QFileInfo \<Rightarrow> nat QFileInfo \<Rightarrow> bool" where
  "demo_differs snap fi = (snap \<noteq> fi)"

text \<open>The engine after \<^verbatim>\<open>addPaths\<close> of \<open>a\<close> and \<open>d\<close> on that file system.\<close>

definition demo_engine :: "nat QFileInfo engine" where
  "demo_engine =
     \<lparr>files = [(''a'', demo_fs ''a'')], directories = [(''d'', demo_fs ''d/'')],
      timer_isActive = True\<rparr>"

text \<open>
  The entries of a list, in their order, that satisfy \<open>P\<close>, where \<open>P\<close> is told the entries
  before the one it judges.
\<close>

definition picked :: "('a list \<Rightarrow> 'a \<Rightarrow> bool) \<Rightarrow> 'a list \<Rightarrow> 'a list" where
  "picked P xs = [xs ! i. i \<leftarrow> [0..<length xs], P (take i xs) (xs ! i)]"

section \<open>The Android assets file engine (qandroidassetsfileenginehandler.cpp)\<close>

subsection \<open>Paths\<close>

text \<open>
  A \<^verbatim>\<open>QString\<close> is a list of characters. The code only cuts strings, joins them and
  compares them with \<open>/\<close> and with the prefix, so the width of a character does not
  matter here.
\<close>

definition assetsPrefix :: string where
  "assetsPrefix = ''assets:''"

definition prefixSize :: nat where
  "prefixSize = 7"

text \<open>
  \<^verbatim>\<open>s.replace(QLatin1String("//"), QLatin1String("/"))\<close>: the occurrences of the pattern are
  found from left to right, they do not overlap, and the text put in is not looked at
  again. Five slashes become three.
\<close>

fun replace_slashes :: "string \<Rightarrow> string" where
  "replace_slashes (a # b # s) =
     (if a = CHR ''/'' \<and> b = CHR ''/'' then CHR ''/'' # replace_slashes s
      else a # replace_slashes (b # s))"
| "replace_slashes s = s"

definition cleanedAssetPath :: "string \<Rightarrow> string" where
  "cleanedAssetPath file =
     (let file1 = (if prefix assetsPrefix file then drop prefixSize file else file);
          file2 = replace_slashes file1;
          file3 = (if startsWith file2 CHR ''/'' then drop 1 file2 else file2);
          file4 = (if endsWith file3 CHR ''/'' then butlast file3 else file3)
      in file4)"

definition prefixedPath :: "string \<Rightarrow> string" where
  "prefixedPath path = replace_slashes (assetsPrefix @ ''/'' @ path)"

text \<open>Whether a string holds two, or three, slashes in a row.\<close>

fun has_two_slashes :: "string \<Rightarrow> bool" where
  "has_two_slashes (a # b # s) = ((a = CHR ''/'' \<and> b = CHR ''/'') \<or> has_two_slashes (b # s))"
| "has_two_slashes s = False"

fun has_three_slashes :: "string \<Rightarrow> bool" where
  "has_three_slashes (a # b # c # s) =
     ((a = CHR ''/'' \<and> b = CHR ''/'' \<and> c = CHR ''/'') \<or> has_three_slashes (b # c # s))"
| "has_three_slashes s = False"

subsection \<open>Folder iterators\<close>

datatype AssetType = File | Folder

record AssetItem =
  item_type :: AssetType
  item_name :: string

text \<open>The constructor \<^verbatim>\<open>AssetItem(rawName)\<close>.\<close>

definition AssetItem_of :: "string \<Rightarrow> AssetItem" where
  "AssetItem_of rawName =
     (if endsWith rawName CHR ''/'' then \<lparr>item_type = Folder, item_name = butlast rawName\<rparr>
      else \<lparr>item_type = File, item_name = rawName\<rparr>)"

text \<open>
  A \<^verbatim>\<open>FolderIterator\<close> is a vector of items (its base class) with the members \<^verbatim>\<open>m_index\<close> and
  \<^verbatim>\<open>m_path\<close>. \<^verbatim>\<open>m_index\<close> is a C++ \<^verbatim>\<open>int\<close>; it is an integer here, and the statements about it
  are for the iterators the code can make, where it stays below the size of the vector
  and \<^verbatim>\<open>m_index + 1\<close> cannot overflow.
\<close>

record FolderIterator =
  items :: "AssetItem list"
  m_index :: int
  m_path :: string

text \<open>
  The constructor. The listing of a folder comes from Java through JNI:
  \<open>listAssetContent\<close> is that call, \<open>None\<close> when the returned object is not valid.
\<close>

definition FolderIterator_new :: "(string \<Rightarrow> string list option) \<Rightarrow> string \<Rightarrow> FolderIterator" where
  "FolderIterator_new listAssetContent path =
     \<lparr>items = (case listAssetContent path of None \<Rightarrow> [] | Some fls \<Rightarrow> map AssetItem_of fls),
      m_index = - 1,
      m_path = replace_slashes (assetsPrefix @ ''/'' @ path @ ''/'')\<rparr>"

definition size_it :: "FolderIterator \<Rightarrow> int" where
  "size_it it = int (length (items it))"

definition empty_it :: "FolderIterator \<Rightarrow> bool" where
  "empty_it it = (items it = [])"

text \<open>\<^verbatim>\<open>at(i)\<close> of the vector: outside the vector it is an assertion failure.\<close>

datatype failure = OutOfRange

definition at_it :: "FolderIterator \<Rightarrow> int \<Rightarrow> failure + AssetItem" where
  "at_it it i = (if 0 \<le> i \<and> i < size_it it then Inr (items it ! nat i) else Inl OutOfRange)"

definition currentFileName :: "FolderIterator \<Rightarrow> string" where
  "currentFileName it =
     (if m_index it < 0 \<or> m_index it \<ge> size_it it then []
      else item_name (items it ! nat (m_index it)))"

definition currentFilePath :: "FolderIterator \<Rightarrow> string" where
  "currentFilePath it =
     (if m_index it < 0 \<or> m_index it \<ge> size_it it then []
      else m_path it @ item_name (items it ! nat (m_index it)))"

definition hasNext :: "FolderIterator \<Rightarrow> bool" where
  "hasNext it = (\<not> empty_it it \<and> m_index it + 1 < size_it it)"

text \<open>
  \<^verbatim>\<open>next()\<close>: the returned optional and the iterator after the call, or the failure of
  \<^verbatim>\<open>at(m_index)\<close>.
\<close>

definition next_it ::
  "FolderIterator \<Rightarrow> failure + ((string \<times> AssetItem) option \<times> FolderIterator)" where
  "next_it it =
     (if \<not> hasNext it then Inr (None, it)
      else
        let it' = it\<lparr>m_index := m_index it + 1\<rparr>
        in case at_it it' (m_index it') of
             Inl f \<Rightarrow> Inl f
           | Inr item \<Rightarrow> Inr (Some (currentFileName it', item), it'))"

text \<open>
  The iterators the code can make: \<^verbatim>\<open>m_index\<close> is private and changes in \<^verbatim>\<open>next()\<close> only, so
  an iterator is what the constructor made, after some number of calls of \<^verbatim>\<open>next()\<close>.
\<close>

fun after_next :: "nat \<Rightarrow> FolderIterator \<Rightarrow> failure + FolderIterator" where
  "after_next 0 it = Inr it"
| "after_next (Suc n) it =
     (case after_next n it of
        Inl f \<Rightarrow> Inl f
      | Inr it' \<Rightarrow> (case next_it it' of Inl f \<Rightarrow> Inl f | Inr (r, it'') \<Rightarrow> Inr it''))"

subsection \<open>The cache of folder iterators\<close>

text \<open>
  Modelled from the spec: \<^verbatim>\<open>QCache\<close> is declared in qcache.h, which is not among the
  sources. The cache has a capacity \<open>mx\<close> and holds at most one object for a key; an
  insertion can fail, and an entry can leave the cache when others are inserted.
  Here every entry costs 1, as \<^verbatim>\<open>fromCache\<close> inserts with the default cost, and \<open>nodes\<close>
  lists the entries from the most recently used to the least recently used one. An
  object of the cache is a shared pointer to a \<^verbatim>\<open>FolderIterator\<close>, which is the address of
  the iterator.
\<close>

record qcache =
  mx :: int
  nodes :: "(string \<times> nat) list"

text \<open>
  Modelled from the spec: \<^verbatim>\<open>QCache::object(key)\<close>, which is not among the sources, finds
  the entry of the key, if there is one, and makes it the most recently used.
\<close>

definition cache_object :: "qcache \<Rightarrow> string \<Rightarrow> nat option \<times> qcache" where
  "cache_object c k =
     (case map_of (nodes c) k of
        None \<Rightarrow> (None, c)
      | Some a \<Rightarrow> (Some a, c\<lparr>nodes := (k, a) # AList.delete k (nodes c)\<rparr>))"

text \<open>
  Modelled from the spec: \<^verbatim>\<open>QCache::trim(m)\<close>, which is not among the sources, drops least
  recently used entries until the total cost is at most \<open>m\<close>.
\<close>

definition cache_trim :: "qcache \<Rightarrow> int \<Rightarrow> qcache" where
  "cache_trim c m = c\<lparr>nodes := take (nat m) (nodes c)\<rparr>"

text \<open>
  Modelled from the spec: \<^verbatim>\<open>QCache::insert(key, object)\<close>, which is not among the sources,
  removes an entry of the key, fails when the cost of the object is above the capacity,
  and else makes room for the object and puts it in front. The result says whether the
  object was inserted.
\<close>

definition cache_insert :: "qcache \<Rightarrow> string \<Rightarrow> nat \<Rightarrow> bool \<times> qcache" where
  "cache_insert c k a =
     (let c1 = c\<lparr>nodes := AList.delete k (nodes c)\<rparr>
      in if 1 > mx c1 then (False, c1)
         else let c2 = cache_trim c1 (mx c1 - 1)
              in (True, c2\<lparr>nodes := (k, a) # nodes c2\<rparr>))"

text \<open>
  The static members and the heap: \<open>m_assetsCache\<close>, and the iterators allocated so far,
  each at the address that is its place in \<open>iterators\<close>. Nothing is freed, so that an
  address never comes to stand for another iterator.
\<close>

record assets =
  m_assetsCache :: qcache
  iterators :: "FolderIterator list"

text \<open>
  The initial value of \<^verbatim>\<open>m_assetsCache\<close>; \<open>env\<close> is the value of
  \<^verbatim>\<open>qEnvironmentVariableIntValue("QT_ANDROID_MAX_ASSETS_CACHE_SIZE")\<close>.
\<close>

definition assets_init :: "int \<Rightarrow> assets" where
  "assets_init env = \<lparr>m_assetsCache = \<lparr>mx = max 50 env, nodes = []\<rparr>, iterators = []\<rparr>"

text \<open>
  \<^verbatim>\<open>fromCache\<close>, the body under the mutex. The result is the address of the iterator the
  returned shared pointer points to. Both branches of the test of \<^verbatim>\<open>insert\<close> return the
  new iterator, as the source has it.
\<close>

definition fromCache ::
  "(string \<Rightarrow> string list option) \<Rightarrow> string \<Rightarrow> assets \<Rightarrow> nat \<times> assets" where
  "fromCache listAssetContent path s =
     (case cache_object (m_assetsCache s) path of
        (Some folder, c) \<Rightarrow> (folder, s\<lparr>m_assetsCache := c\<rparr>)
      | (None, c) \<Rightarrow>
          let folder = length (iterators s);
              s1 = s\<lparr>iterators := iterators s @ [FolderIterator_new listAssetContent path]\<rparr>;
              (inserted, c') = cache_insert c path folder
          in if \<not> inserted then (folder, s1\<lparr>m_assetsCache := c'\<rparr>)
             else (folder, s1\<lparr>m_assetsCache := c'\<rparr>))"

subsection \<open>The file engine and its handler\<close>

text \<open>
  \<^verbatim>\<open>AndroidAbstractFileEngine\<close>: \<^verbatim>\<open>m_assetFile\<close> is the handle of the open asset or null.
  \<open>AAssetManager_open\<close> is the call of that name of the NDK, from the file name to the
  handle or null.
\<close>

record AndroidAbstractFileEngine =
  m_assetFile :: "nat option"
  m_fileName :: string
  m_isFolder :: bool

definition close_engine :: "AndroidAbstractFileEngine \<Rightarrow> bool \<times> AndroidAbstractFileEngine" where
  "close_engine en =
     (if m_assetFile en \<noteq> None then (True, en\<lparr>m_assetFile := None\<rparr>) else (False, en))"

text \<open>\<^verbatim>\<open>open(openMode)\<close>; \<open>writeOnly\<close> is \<^verbatim>\<open>openMode & QIODevice::WriteOnly\<close>.\<close>

definition open_engine ::
  "(string \<Rightarrow> nat option) \<Rightarrow> bool \<Rightarrow> AndroidAbstractFileEngine \<Rightarrow> bool \<times> AndroidAbstractFileEngine" where
  "open_engine AAssetManager_open writeOnly en =
     (if m_isFolder en \<or> writeOnly then (False, en)
      else
        let en1 = snd (close_engine en);
            en2 = en1\<lparr>m_assetFile := AAssetManager_open (m_fileName en1)\<rparr>
        in (m_assetFile en2 \<noteq> None, en2))"

text \<open>
  \<^verbatim>\<open>setFileName\<close>. The right operand of \<^verbatim>\<open>&&\<close> is evaluated only when \<^verbatim>\<open>open\<close> failed; it asks
  the cache for the iterator of the folder.
\<close>

definition setFileName ::
  "(string \<Rightarrow> string list option) \<Rightarrow> (string \<Rightarrow> nat option) \<Rightarrow> string
     \<Rightarrow> AndroidAbstractFileEngine \<times> assets \<Rightarrow> AndroidAbstractFileEngine \<times> assets" where
  "setFileName listAssetContent AAssetManager_open file = (\<lambda>(en, s).
     let en1 = snd (close_engine en);
         en2 = en1\<lparr>m_fileName := cleanedAssetPath file\<rparr>;
         (opened, en3) = open_engine AAssetManager_open False en2
     in if opened then (en3\<lparr>m_isFolder := False\<rparr>, s)
        else
          let (folder, s') = fromCache listAssetContent (m_fileName en3) s
          in (en3\<lparr>m_isFolder := \<not> empty_it (iterators s' ! folder)\<rparr>, s'))"

text \<open>
  The constructor calls \<^verbatim>\<open>setFileName\<close>. The member \<^verbatim>\<open>m_isFolder\<close> has no initialiser and is
  read by \<^verbatim>\<open>open\<close> before it is first assigned: \<open>isFolder0\<close> is whatever it holds then.
\<close>

definition AndroidAbstractFileEngine_new ::
  "(string \<Rightarrow> string list option) \<Rightarrow> (string \<Rightarrow> nat option) \<Rightarrow> bool \<Rightarrow> string \<Rightarrow> assets
     \<Rightarrow> AndroidAbstractFileEngine \<times> assets" where
  "AndroidAbstractFileEngine_new listAssetContent AAssetManager_open isFolder0 fileName s =
     setFileName listAssetContent AAssetManager_open fileName
       (\<lparr>m_assetFile = None, m_fileName = [], m_isFolder = isFolder0\<rparr>, s)"

text \<open>The path that \<^verbatim>\<open>AndroidAssetsFileEngineHandler::create\<close> computes from the file name.\<close>

definition create_path :: "string \<Rightarrow> string" where
  "create_path fileName =
     (let path1 = drop prefixSize fileName;
          path2 = replace_slashes path1;
          path3 = (if startsWith path2 CHR ''/'' then drop 1 path2 else path2);
          path4 = (if endsWith path3 CHR ''/'' then butlast path3 else path3)
      in path4)"

definition create ::
  "(string \<Rightarrow> string list option) \<Rightarrow> (string \<Rightarrow> nat option) \<Rightarrow> bool \<Rightarrow> string \<Rightarrow> assets
     \<Rightarrow> AndroidAbstractFileEngine option \<times> assets" where
  "create listAssetContent AAssetManager_open isFolder0 fileName s =
     (if fileName = [] then (None, s)
      else if \<not> prefix assetsPrefix fileName then (None, s)
      else
        let (en, s') = AndroidAbstractFileEngine_new listAssetContent AAssetManager_open
                         isFolder0 (create_path fileName) s
        in (Some en, s'))"

text \<open>A listing to run the code on: the root folder holds a folder and a file.\<close>

definition demo_listing :: "string \<Rightarrow> string list option" where
  "demo_listing path =
     (if path = [] then Some [''img/'', ''a.txt'']
      else if path = ''img'' then Some [''x.png'']
      else Some [])"

text \<open>The iterator of the root folder of that listing after one call of \<^verbatim>\<open>next()\<close>.\<close>

definition demo_iterator :: FolderIterator where
  "demo_iterator =
     \<lparr>items = [\<lparr>item_type = Folder, item_name = ''img''\<rparr>,
               \<lparr>item_type = File, item_name = ''a.txt''\<rparr>],
      m_index = 0, m_path = ''assets:/''\<rparr>"

text \<open>An asset manager that opens no file.\<close>

definition no_asset :: "string \<Rightarrow> nat option" where
  "no_asset fileName = None"

text \<open>
  The static state after the calls of \<^verbatim>\<open>fromCache\<close> for the paths \<open>ps\<close>, one after the
  other, in a process whose environment gives \<open>env\<close>. Nothing but \<^verbatim>\<open>fromCache\<close> touches the
  cache, which is private.
\<close>

definition after_calls :: "(string \<Rightarrow> string list option) \<Rightarrow> int \<Rightarrow> string list \<Rightarrow> assets" where
  "after_calls listAssetContent env ps =
     foldl (\<lambda>s p. snd (fromCache listAssetContent p s)) (assets_init env) ps"

section \<open>The platform integration plugins (linuxfb, offscreen, winrt)\<close>









section \<open>The network information backend of SCNetworkReachability\<close>

text \<open>
  \<^verbatim>\<open>QNetworkInformation::Features\<close> is a \<^verbatim>\<open>QFlags\<close> over the enum \<^verbatim>\<open>Feature\<close>: a word of 32 bits
  with \<^verbatim>\<open>&\<close> and \<^verbatim>\<open>|\<close> bit by bit. The enum is declared in qnetworkinformation.h, which is
  not among the sources: the values \<open>Reachability\<close> and \<open>TransportMedium\<close> of its two
  enumerators the code names are parameters. \<open>uikit\<close> says whether \<^verbatim>\<open>QT_PLATFORM_UIKIT\<close> is
  defined.
\<close>

definition featuresSupportedStatic :: "bool \<Rightarrow> 32 word \<Rightarrow> 32 word \<Rightarrow> 32 word" where
  "featuresSupportedStatic uikit Reachability TransportMedium =
     (if uikit then Reachability OR TransportMedium else Reachability)"

text \<open>
  The backend object. A probe is a \<^verbatim>\<open>QNetworkConnectionMonitor\<close> as the constructor sees it:
  whether \<^verbatim>\<open>setTargets\<close> succeeded, and what \<^verbatim>\<open>isReachable()\<close> and \<^verbatim>\<open>isWwan()\<close> say.
\<close>

datatype Reachability_value = Online | Disconnected

datatype TransportMedium_value = Unknown | Cellular | WiFi

record probe =
  setTargets :: bool
  isReachable :: bool
  isWwan :: bool

record backend =
  reachability :: Reachability_value
  transportMedium :: TransportMedium_value

definition reachabilityChanged :: "bool \<Rightarrow> backend \<Rightarrow> backend" where
  "reachabilityChanged isOnline b =
     b\<lparr>reachability := (if isOnline then Online else Disconnected)\<rparr>"

definition isWwanChanged :: "bool \<Rightarrow> backend \<Rightarrow> backend" where
  "isWwanChanged wwan b =
     (if reachability b = Disconnected then b\<lparr>transportMedium := Unknown\<rparr>
      else b\<lparr>transportMedium := (if wwan then Cellular else WiFi)\<rparr>)"

text \<open>
  The constructor; \<open>b0\<close> is the object as the base class \<^verbatim>\<open>QNetworkInformationBackend\<close> made
  it.
\<close>

definition backend_new :: "bool \<Rightarrow> probe \<Rightarrow> probe \<Rightarrow> backend \<Rightarrow> backend" where
  "backend_new uikit ipv4Probe ipv6Probe b0 =
     (let isOnline = (setTargets ipv4Probe \<and> isReachable ipv4Probe)
                     \<or> (setTargets ipv6Probe \<and> isReachable ipv6Probe);
          wwan = (setTargets ipv4Probe \<and> isWwan ipv4Probe)
                 \<or> (setTargets ipv6Probe \<and> isWwan ipv6Probe);
          b1 = reachabilityChanged isOnline b0
      in if uikit then isWwanChanged wwan b1 else b1)"

text \<open>\<^verbatim>\<open>QSCNetworkReachabilityNetworkInformationBackendFactory::create\<close>.\<close>

definition backend_create ::
  "bool \<Rightarrow> 32 word \<Rightarrow> 32 word \<Rightarrow> probe \<Rightarrow> probe \<Rightarrow> backend \<Rightarrow> 32 word \<Rightarrow> backend list
     \<Rightarrow> nat option \<times> backend list" where
  "backend_create uikit Reachability TransportMedium ipv4Probe ipv6Probe b0 requiredFeatures heap =
     (if (requiredFeatures AND featuresSupportedStatic uikit Reachability TransportMedium)
           \<noteq> requiredFeatures
      then (None, heap)
      else (Some (length heap), heap @ [backend_new uikit ipv4Probe ipv6Probe b0]))"

text \<open>A probe that reaches the network, and the backend of the base class.\<close>

definition demo_probe :: probe where
  "demo_probe = \<lparr>setTargets = True, isReachable = True, isWwan = False\<rparr>"

definition demo_backend :: backend where
  "demo_backend = \<lparr>reachability = Disconnected, transportMedium = Unknown\<rparr>"

section \<open>Properties of the polling watcher\<close>

subsection \<open>The timer runs exactly while something is watched\<close>

lemma update_not_Nil: "AList.update k v xs \<noteq> []"
  by (cases xs) auto

lemma addPaths_body_timer:
  "timer_isActive (eng (addPaths_body snapshot fs st p)) = timer_isActive (eng st)"
  by (simp add: addPaths_body_def Let_def)

lemma addPaths_body_files_grow:
  "files (eng st) \<noteq> [] \<Longrightarrow> files (eng (addPaths_body snapshot fs st p)) \<noteq> []"
  by (simp add: addPaths_body_def Let_def update_not_Nil)

lemma addPaths_body_dirs_grow:
  "directories (eng st) \<noteq> [] \<Longrightarrow> directories (eng (addPaths_body snapshot fs st p)) \<noteq> []"
  by (simp add: addPaths_body_def Let_def update_not_Nil)

lemma addPaths_loop_timer:
  "timer_isActive (eng (foldl (addPaths_body snapshot fs) st ps)) = timer_isActive (eng st)"
  by (induction ps arbitrary: st) (simp_all add: addPaths_body_timer)

lemma addPaths_loop_files_grow:
  "files (eng st) \<noteq> [] \<Longrightarrow> files (eng (foldl (addPaths_body snapshot fs) st ps)) \<noteq> []"
  by (induction ps arbitrary: st) (simp_all add: addPaths_body_files_grow)

lemma addPaths_loop_dirs_grow:
  "directories (eng st) \<noteq> [] \<Longrightarrow> directories (eng (foldl (addPaths_body snapshot fs) st ps)) \<noteq> []"
  by (induction ps arbitrary: st) (simp_all add: addPaths_body_dirs_grow)

lemma removePaths_body_timer:
  "timer_isActive (eng (removePaths_body st p)) = timer_isActive (eng st)"
  by (simp add: removePaths_body_def)

lemma removePaths_body_files_shrink:
  "files (eng st) = [] \<Longrightarrow> files (eng (removePaths_body st p)) = []"
  by (simp add: removePaths_body_def)

lemma removePaths_body_dirs_shrink:
  "directories (eng st) = [] \<Longrightarrow> directories (eng (removePaths_body st p)) = []"
  by (simp add: removePaths_body_def)

lemma removePaths_loop_timer:
  "timer_isActive (eng (foldl removePaths_body st ps)) = timer_isActive (eng st)"
  by (induction ps arbitrary: st) (simp_all add: removePaths_body_timer)

lemma removePaths_loop_files_shrink:
  "files (eng st) = [] \<Longrightarrow> files (eng (foldl removePaths_body st ps)) = []"
  by (induction ps arbitrary: st) (simp_all add: removePaths_body_files_shrink)

lemma removePaths_loop_dirs_shrink:
  "directories (eng st) = [] \<Longrightarrow> directories (eng (foldl removePaths_body st ps)) = []"
  by (induction ps arbitrary: st) (simp_all add: removePaths_body_dirs_shrink)

text \<open>
  \<^verbatim>\<open>addPaths\<close> keeps the invariant: its loop never empties a hash and leaves the timer
  alone, and the test after the loop starts the timer when something is watched.
\<close>

lemma addPaths_timer_invariant:
  assumes "timer_invariant e"
  shows "timer_invariant (eng (addPaths snapshot fs paths fls dirs e))"
proof -
  let ?init = "\<lparr>eng = e, c_files = fls, c_directories = dirs, unhandled = []\<rparr>"
  let ?final = "foldl (addPaths_body snapshot fs) ?init paths"
  have t: "timer_isActive (eng ?final) = timer_isActive e"
    using addPaths_loop_timer [where st = ?init and ps = paths and fs = fs] by simp
  have f: "files e \<noteq> [] \<Longrightarrow> files (eng ?final) \<noteq> []"
    using addPaths_loop_files_grow [where st = ?init and ps = paths and fs = fs] by simp
  have d: "directories e \<noteq> [] \<Longrightarrow> directories (eng ?final) \<noteq> []"
    using addPaths_loop_dirs_grow [where st = ?init and ps = paths and fs = fs] by simp
  have "timer_invariant (start_timer (eng ?final))"
    using assms t f d unfolding timer_invariant_def start_timer_def by auto
  then show ?thesis by (simp add: addPaths_def Let_def)
qed

text \<open>
  \<^verbatim>\<open>removePaths\<close> keeps it too: its loop never fills a hash and leaves the timer alone, and
  the test after the loop stops the timer when nothing is watched.
\<close>

lemma removePaths_timer_invariant:
  assumes "timer_invariant e"
  shows "timer_invariant (eng (removePaths paths fls dirs e))"
proof -
  let ?init = "\<lparr>eng = e, c_files = fls, c_directories = dirs, unhandled = []\<rparr>"
  let ?final = "foldl removePaths_body ?init paths"
  have t: "timer_isActive (eng ?final) = timer_isActive e"
    using removePaths_loop_timer [where st = ?init and ps = paths] by simp
  have f: "files e = [] \<Longrightarrow> files (eng ?final) = []"
    using removePaths_loop_files_shrink [where st = ?init and ps = paths] by simp
  have d: "directories e = [] \<Longrightarrow> directories (eng ?final) = []"
    using removePaths_loop_dirs_shrink [where st = ?init and ps = paths] by simp
  have "timer_invariant (stop_timer (eng ?final))"
    using assms t f d unfolding timer_invariant_def stop_timer_def by auto
  then show ?thesis by (simp add: removePaths_def Let_def)
qed

lemma serve_timer_invariant: "timer_invariant e \<Longrightarrow> timer_invariant (serve snapshot e r)"
  by (cases r) (simp_all add: addPaths_timer_invariant removePaths_timer_invariant)

lemma serve_all_timer_invariant: "timer_invariant e \<Longrightarrow> timer_invariant (foldl (serve snapshot) e rs)"
  by (induction rs arbitrary: e) (simp_all add: serve_timer_invariant)

text \<open>
  Claim C4. After every sequence \<open>rs\<close> of calls of \<^verbatim>\<open>addPaths\<close> and \<^verbatim>\<open>removePaths\<close> on a newly
  constructed engine, with any arguments and any file system at each call, the timer is
  active if and only if one of the two hashes is not empty. Every prefix of a sequence
  of calls is a sequence of calls, so this holds after each call.
\<close>

theorem timer_active_iff_watching:
  "timer_isActive (foldl (serve snapshot) new_engine rs) =
     (files (foldl (serve snapshot) new_engine rs) \<noteq> [] \<or> directories (foldl (serve snapshot) new_engine rs) \<noteq> [])"
proof -
  have "timer_invariant (new_engine :: 'a engine)"
    by (simp add: timer_invariant_def new_engine_def)
  then have "timer_invariant (foldl (serve snapshot) (new_engine :: 'a engine) rs)"
    by (rule serve_all_timer_invariant)
  then show ?thesis by (simp add: timer_invariant_def)
qed

text \<open>
  On the small file system: after adding the file, the directory and a path that
  does not exist, and removing the file again, the directory is still watched, and
  the theorem gives that the timer runs.
\<close>

theorem timer_active_iff_watching_witness:
  "directories (foldl (serve demo_snapshot) new_engine
      [AddPaths demo_fs [''a'', ''d'', ''x''] [] [], RemovePaths [''a''] [''a''] [''d'']])
     = [(''d'', demo_fs ''d/'')]
   \<and> timer_isActive (foldl (serve demo_snapshot) new_engine
      [AddPaths demo_fs [''a'', ''d'', ''x''] [] [], RemovePaths [''a''] [''a''] [''d'']])"
proof -
  let ?rs = "[AddPaths demo_fs [''a'', ''d'', ''x''] [] [], RemovePaths [''a''] [''a''] [''d'']]"
  have d: "directories (foldl (serve demo_snapshot) new_engine ?rs) = [(''d'', demo_fs ''d/'')]"
    by (simp add: demo_fs_def demo_snapshot_def addPaths_def addPaths_body_def removePaths_def
        removePaths_body_def new_engine_def start_timer_def stop_timer_def
        hash_contains_def endsWith_def)
  from d timer_active_iff_watching [where rs = ?rs and snapshot = demo_snapshot] show ?thesis by simp
qed
subsection \<open>One tick of the timer\<close>

text \<open>The two loops of \<^verbatim>\<open>timeout\<close>, one entry at a time.\<close>

lemma timeout_files_Cons:
  "timeout_files snapshot differs fs ((path, snap) # rest) =
     (if \<not> fi_exists (fs path)
      then (fst (timeout_files snapshot differs fs rest), fileChanged path True # snd (timeout_files snapshot differs fs rest))
      else if differs snap (fs path)
      then ((path, snapshot (fs path)) # fst (timeout_files snapshot differs fs rest),
            fileChanged path False # snd (timeout_files snapshot differs fs rest))
      else ((path, snap) # fst (timeout_files snapshot differs fs rest), snd (timeout_files snapshot differs fs rest)))"
  by (simp add: Let_def split_beta)

lemma timeout_files_keys:
  "fst ` set (fst (timeout_files snapshot differs fs al)) \<subseteq> fst ` set al"
proof (induction al)
  case Nil
  show ?case by simp
next
  case (Cons kv al)
  obtain path snap where kv: "kv = (path, snap)" by (cases kv)
  from Cons show ?case unfolding kv timeout_files_Cons by auto
qed

lemma timeout_files_signal_paths:
  "s \<in> set (snd (timeout_files snapshot differs fs al)) \<Longrightarrow> \<exists>q b. s = fileChanged q b \<and> q \<in> fst ` set al"
proof (induction al)
  case Nil
  then show ?case by simp
next
  case (Cons kv al)
  obtain path snap where kv: "kv = (path, snap)" by (cases kv)
  from Cons.prems Cons.IH show ?case unfolding kv timeout_files_Cons
    by (auto split: if_splits)
qed

lemma timeout_files_unwatched:
  assumes "p \<notin> fst ` set al"
  shows "map_of (fst (timeout_files snapshot differs fs al)) p = None \<and> file_signals p (snd (timeout_files snapshot differs fs al)) = []"
proof
  show "map_of (fst (timeout_files snapshot differs fs al)) p = None"
    using assms timeout_files_keys [of snapshot differs fs al] by (auto simp: map_of_eq_None_iff)
  show "file_signals p (snd (timeout_files snapshot differs fs al)) = []"
    using assms timeout_files_signal_paths [of _ snapshot differs fs al]
    by (auto simp: file_signals_def filter_empty_conv)
qed

lemma timeout_files_watched_map:
  assumes "distinct (map fst al)" and "map_of al p = Some snap"
  shows "map_of (fst (timeout_files snapshot differs fs al)) p =
     (if \<not> fi_exists (fs p) then None
      else if differs snap (fs p) then Some (snapshot (fs p)) else Some snap)"
  using assms
proof (induction al)
  case Nil
  then show ?case by simp
next
  case (Cons kv al)
  obtain path snap' where kv: "kv = (path, snap')" by (cases kv)
  show ?case
  proof (cases "p = path")
    case True
    with Cons.prems kv have s: "snap' = snap" and nin: "p \<notin> fst ` set al" by auto
    from timeout_files_unwatched [OF nin, of snapshot differs fs] True s show ?thesis
      unfolding kv timeout_files_Cons by simp
  next
    case False
    with Cons.prems kv have d: "distinct (map fst al)" and m: "map_of al p = Some snap" by auto
    from Cons.IH [OF d m] False show ?thesis
      unfolding kv timeout_files_Cons by simp
  qed
qed

lemma timeout_files_watched_signals:
  assumes "distinct (map fst al)" and "map_of al p = Some snap"
  shows "file_signals p (snd (timeout_files snapshot differs fs al)) =
     (if \<not> fi_exists (fs p) then [fileChanged p True]
      else if differs snap (fs p) then [fileChanged p False] else [])"
  using assms
proof (induction al)
  case Nil
  then show ?case by simp
next
  case (Cons kv al)
  obtain path snap' where kv: "kv = (path, snap')" by (cases kv)
  show ?case
  proof (cases "p = path")
    case True
    with Cons.prems kv have s: "snap' = snap" and nin: "p \<notin> fst ` set al" by auto
    from timeout_files_unwatched [OF nin, of snapshot differs fs] have "file_signals p (snd (timeout_files snapshot differs fs al)) = []"
      by simp
    with True s show ?thesis
      unfolding kv timeout_files_Cons by (simp add: file_signals_def)
  next
    case False
    with Cons.prems kv have d: "distinct (map fst al)" and m: "map_of al p = Some snap" by auto
    from Cons.IH [OF d m] False show ?thesis
      unfolding kv timeout_files_Cons by (simp add: file_signals_def)
  qed
qed

lemma timeout_files_watched:
  assumes "distinct (map fst al)" and "map_of al p = Some snap"
  shows "(map_of (fst (timeout_files snapshot differs fs al)) p, file_signals p (snd (timeout_files snapshot differs fs al))) =
     (if \<not> fi_exists (fs p) then (None, [fileChanged p True])
      else if differs snap (fs p) then (Some (snapshot (fs p)), [fileChanged p False])
      else (Some snap, []))"
  by (simp add: timeout_files_watched_map [OF assms] timeout_files_watched_signals [OF assms])

lemma timeout_directories_Cons:
  "timeout_directories snapshot differs fs fs' ((path, snap) # rest) =
     (if \<not> fi_exists (dir_info fs path)
      then (fst (timeout_directories snapshot differs fs fs' rest),
            directoryChanged path True # snd (timeout_directories snapshot differs fs fs' rest))
      else if differs snap (dir_info fs path)
      then (if \<not> fi_exists (dir_info fs' path)
            then (fst (timeout_directories snapshot differs fs fs' rest),
                  directoryChanged path True # snd (timeout_directories snapshot differs fs fs' rest))
            else ((path, snapshot (dir_info fs' path)) # fst (timeout_directories snapshot differs fs fs' rest),
                  directoryChanged path False # snd (timeout_directories snapshot differs fs fs' rest)))
      else ((path, snap) # fst (timeout_directories snapshot differs fs fs' rest),
            snd (timeout_directories snapshot differs fs fs' rest)))"
  by (simp add: Let_def split_beta)

lemma timeout_directories_keys:
  "fst ` set (fst (timeout_directories snapshot differs fs fs' al)) \<subseteq> fst ` set al"
proof (induction al)
  case Nil
  show ?case by simp
next
  case (Cons kv al)
  obtain path snap where kv: "kv = (path, snap)" by (cases kv)
  from Cons show ?case unfolding kv timeout_directories_Cons by auto
qed

lemma timeout_directories_signal_paths:
  "s \<in> set (snd (timeout_directories snapshot differs fs fs' al)) \<Longrightarrow>
     \<exists>q b. s = directoryChanged q b \<and> q \<in> fst ` set al"
proof (induction al)
  case Nil
  then show ?case by simp
next
  case (Cons kv al)
  obtain path snap where kv: "kv = (path, snap)" by (cases kv)
  from Cons.prems Cons.IH show ?case unfolding kv timeout_directories_Cons
    by (auto split: if_splits)
qed

lemma timeout_directories_unwatched:
  assumes "p \<notin> fst ` set al"
  shows "map_of (fst (timeout_directories snapshot differs fs fs' al)) p = None
     \<and> directory_signals p (snd (timeout_directories snapshot differs fs fs' al)) = []"
proof
  show "map_of (fst (timeout_directories snapshot differs fs fs' al)) p = None"
    using assms timeout_directories_keys [of snapshot differs fs fs' al] by (auto simp: map_of_eq_None_iff)
  show "directory_signals p (snd (timeout_directories snapshot differs fs fs' al)) = []"
    using assms timeout_directories_signal_paths [of _ snapshot differs fs fs' al]
    by (auto simp: directory_signals_def filter_empty_conv)
qed

lemma timeout_directories_watched_map:
  assumes "distinct (map fst al)" and "map_of al p = Some snap"
  shows "map_of (fst (timeout_directories snapshot differs fs fs' al)) p =
     (if \<not> fi_exists (dir_info fs p) then None
      else if differs snap (dir_info fs p)
      then (if \<not> fi_exists (dir_info fs' p) then None else Some (snapshot (dir_info fs' p)))
      else Some snap)"
  using assms
proof (induction al)
  case Nil
  then show ?case by simp
next
  case (Cons kv al)
  obtain path snap' where kv: "kv = (path, snap')" by (cases kv)
  show ?case
  proof (cases "p = path")
    case True
    with Cons.prems kv have s: "snap' = snap" and nin: "p \<notin> fst ` set al" by auto
    from timeout_directories_unwatched [OF nin, of snapshot differs fs fs'] True s show ?thesis
      unfolding kv timeout_directories_Cons by simp
  next
    case False
    with Cons.prems kv have d: "distinct (map fst al)" and m: "map_of al p = Some snap" by auto
    from Cons.IH [OF d m] False show ?thesis
      unfolding kv timeout_directories_Cons by simp
  qed
qed

lemma timeout_directories_watched_signals:
  assumes "distinct (map fst al)" and "map_of al p = Some snap"
  shows "directory_signals p (snd (timeout_directories snapshot differs fs fs' al)) =
     (if \<not> fi_exists (dir_info fs p) then [directoryChanged p True]
      else if differs snap (dir_info fs p)
      then (if \<not> fi_exists (dir_info fs' p) then [directoryChanged p True]
            else [directoryChanged p False])
      else [])"
  using assms
proof (induction al)
  case Nil
  then show ?case by simp
next
  case (Cons kv al)
  obtain path snap' where kv: "kv = (path, snap')" by (cases kv)
  show ?case
  proof (cases "p = path")
    case True
    with Cons.prems kv have s: "snap' = snap" and nin: "p \<notin> fst ` set al" by auto
    from timeout_directories_unwatched [OF nin, of snapshot differs fs fs']
    have "directory_signals p (snd (timeout_directories snapshot differs fs fs' al)) = []" by simp
    with True s show ?thesis
      unfolding kv timeout_directories_Cons by (simp add: directory_signals_def)
  next
    case False
    with Cons.prems kv have d: "distinct (map fst al)" and m: "map_of al p = Some snap" by auto
    from Cons.IH [OF d m] False show ?thesis
      unfolding kv timeout_directories_Cons by (simp add: directory_signals_def)
  qed
qed

lemma timeout_directories_watched:
  assumes "distinct (map fst al)" and "map_of al p = Some snap"
  shows "(map_of (fst (timeout_directories snapshot differs fs fs' al)) p,
          directory_signals p (snd (timeout_directories snapshot differs fs fs' al))) =
     (if \<not> fi_exists (dir_info fs p) then (None, [directoryChanged p True])
      else if differs snap (dir_info fs p)
      then (if \<not> fi_exists (dir_info fs' p) then (None, [directoryChanged p True])
            else (Some (snapshot (dir_info fs' p)), [directoryChanged p False]))
      else (Some snap, []))"
  by (simp add: timeout_directories_watched_map [OF assms]
      timeout_directories_watched_signals [OF assms])

lemma file_signals_append:
  "file_signals p (xs @ ys) = file_signals p xs @ file_signals p ys"
  by (simp add: file_signals_def)

lemma directory_signals_append:
  "directory_signals p (xs @ ys) = directory_signals p xs @ directory_signals p ys"
  by (simp add: directory_signals_def)

lemma file_signals_of_directories:
  "file_signals p (snd (timeout_directories snapshot differs fs fs' al)) = []"
  using timeout_directories_signal_paths [of _ snapshot differs fs fs' al]
  by (auto simp: file_signals_def filter_empty_conv)

lemma directory_signals_of_files:
  "directory_signals p (snd (timeout_files snapshot differs fs al)) = []"
  using timeout_files_signal_paths [of _ snapshot differs fs al]
  by (auto simp: directory_signals_def filter_empty_conv)

lemma timeout_files_part:
  "files (fst (timeout snapshot differs fs fs' e)) = fst (timeout_files snapshot differs fs (files e))"
  by (simp add: timeout_def split_beta)

lemma timeout_directories_part:
  "directories (fst (timeout snapshot differs fs fs' e)) = fst (timeout_directories snapshot differs fs fs' (directories e))"
  by (simp add: timeout_def split_beta)

lemma timeout_file_signals:
  "file_signals p (snd (timeout snapshot differs fs fs' e)) = file_signals p (snd (timeout_files snapshot differs fs (files e)))"
  by (simp add: timeout_def split_beta file_signals_append file_signals_of_directories)

lemma timeout_directory_signals:
  "directory_signals p (snd (timeout snapshot differs fs fs' e)) =
     directory_signals p (snd (timeout_directories snapshot differs fs fs' (directories e)))"
  by (simp add: timeout_def split_beta directory_signals_append directory_signals_of_files)

lemma dir_info_path:
  "dir_info fs p = fs (if endsWith p CHR ''/'' then p else p @ ''/'')"
  by (simp add: dir_info_def)

text \<open>
  Claim C1. One tick of the timer, for any path \<open>p\<close>, with \<open>fs\<close> the file system the
  tick reads and \<open>fs'\<close> the file system \<^verbatim>\<open>refresh()\<close> reads (the hashes have one entry for a
  key). If \<open>p\<close> is a watched file with snapshot \<open>snap\<close>: when the file no longer exists the
  entry is erased and the only signal about the file is \<^verbatim>\<open>fileChanged(p, true)\<close>; when it
  exists and \<open>snap\<close> differs from the fresh \<^verbatim>\<open>QFileInfo\<close>, the entry holds the snapshot of
  the fresh one and the only signal is \<^verbatim>\<open>fileChanged(p, false)\<close>; otherwise the entry is as
  before and there is no signal. A path that is not a watched file has no entry
  afterwards and no signal. The same for a watched directory, with signal
  \<^verbatim>\<open>directoryChanged\<close> and looked at through the \<^verbatim>\<open>QFileInfo\<close> of the path with a trailing
  slash, which is \<open>p\<close> itself when \<open>p\<close> ends with a slash and \<open>p\<close> followed by a slash
  otherwise: when that does not exist the entry is erased with \<^verbatim>\<open>true\<close>; when it differs
  from the snapshot it is refreshed and looked at again, and the entry is erased with
  \<^verbatim>\<open>true\<close> if it is gone by then, and else replaced by the snapshot of the refreshed one
  with \<^verbatim>\<open>false\<close>. The timer is not touched.
\<close>

theorem timeout_diff:
  assumes "distinct (map fst (files e))" and "distinct (map fst (directories e))"
  shows "(case map_of (files e) p of
            None \<Rightarrow> map_of (files (fst (timeout snapshot differs fs fs' e))) p = None
                    \<and> file_signals p (snd (timeout snapshot differs fs fs' e)) = []
          | Some snap \<Rightarrow>
              (map_of (files (fst (timeout snapshot differs fs fs' e))) p,
               file_signals p (snd (timeout snapshot differs fs fs' e))) =
                (if \<not> fi_exists (fs p) then (None, [fileChanged p True])
                 else if differs snap (fs p) then (Some (snapshot (fs p)), [fileChanged p False])
                 else (Some snap, [])))
       \<and> (case map_of (directories e) p of
            None \<Rightarrow> map_of (directories (fst (timeout snapshot differs fs fs' e))) p = None
                    \<and> directory_signals p (snd (timeout snapshot differs fs fs' e)) = []
          | Some snap \<Rightarrow>
              (map_of (directories (fst (timeout snapshot differs fs fs' e))) p,
               directory_signals p (snd (timeout snapshot differs fs fs' e))) =
                (if \<not> fi_exists (fs (if endsWith p CHR ''/'' then p else p @ ''/''))
                 then (None, [directoryChanged p True])
                 else if differs snap (fs (if endsWith p CHR ''/'' then p else p @ ''/''))
                 then (if \<not> fi_exists (fs' (if endsWith p CHR ''/'' then p else p @ ''/''))
                       then (None, [directoryChanged p True])
                       else (Some (snapshot (fs' (if endsWith p CHR ''/'' then p else p @ ''/''))),
                             [directoryChanged p False]))
                 else (Some snap, [])))
       \<and> timer_isActive (fst (timeout snapshot differs fs fs' e)) = timer_isActive e"
proof (intro conjI)
  show "timer_isActive (fst (timeout snapshot differs fs fs' e)) = timer_isActive e"
    by (simp add: timeout_def split_beta)
  show "case map_of (files e) p of
            None \<Rightarrow> map_of (files (fst (timeout snapshot differs fs fs' e))) p = None
                    \<and> file_signals p (snd (timeout snapshot differs fs fs' e)) = []
          | Some snap \<Rightarrow>
              (map_of (files (fst (timeout snapshot differs fs fs' e))) p,
               file_signals p (snd (timeout snapshot differs fs fs' e))) =
                (if \<not> fi_exists (fs p) then (None, [fileChanged p True])
                 else if differs snap (fs p) then (Some (snapshot (fs p)), [fileChanged p False])
                 else (Some snap, []))"
  proof (cases "map_of (files e) p")
    case None
    then have "p \<notin> fst ` set (files e)" by (simp add: map_of_eq_None_iff)
    from timeout_files_unwatched [OF this, of snapshot differs fs] None show ?thesis
      by (simp add: timeout_files_part timeout_file_signals)
  next
    case (Some snap)
    from timeout_files_watched [OF assms(1) Some, of snapshot differs fs] Some show ?thesis
      by (simp only: timeout_files_part timeout_file_signals option.case)
  qed
  show "case map_of (directories e) p of
            None \<Rightarrow> map_of (directories (fst (timeout snapshot differs fs fs' e))) p = None
                    \<and> directory_signals p (snd (timeout snapshot differs fs fs' e)) = []
          | Some snap \<Rightarrow>
              (map_of (directories (fst (timeout snapshot differs fs fs' e))) p,
               directory_signals p (snd (timeout snapshot differs fs fs' e))) =
                (if \<not> fi_exists (fs (if endsWith p CHR ''/'' then p else p @ ''/''))
                 then (None, [directoryChanged p True])
                 else if differs snap (fs (if endsWith p CHR ''/'' then p else p @ ''/''))
                 then (if \<not> fi_exists (fs' (if endsWith p CHR ''/'' then p else p @ ''/''))
                       then (None, [directoryChanged p True])
                       else (Some (snapshot (fs' (if endsWith p CHR ''/'' then p else p @ ''/''))),
                             [directoryChanged p False]))
                 else (Some snap, []))"
  proof (cases "map_of (directories e) p")
    case None
    then have "p \<notin> fst ` set (directories e)" by (simp add: map_of_eq_None_iff)
    from timeout_directories_unwatched [OF this, of snapshot differs fs fs'] None show ?thesis
      by (simp add: timeout_directories_part timeout_directory_signals)
  next
    case (Some snap)
    from timeout_directories_watched [OF assms(2) Some, of snapshot differs fs fs',
        unfolded dir_info_path] Some
    show ?thesis
      by (simp only: timeout_directories_part timeout_directory_signals option.case)
  qed
qed

text \<open>
  The engine that watches the file \<open>a\<close> and the directory \<open>d\<close>. At a tick after \<open>a\<close> was
  written to, the snapshot of \<open>a\<close> is replaced and \<^verbatim>\<open>fileChanged(a, false)\<close> is emitted. At a
  tick on a file system that answers for \<open>d\<close> as before and differently for \<open>d\<close> with a
  trailing slash, the snapshot of \<open>d\<close> is replaced by that of the answer for the path
  with the slash and \<^verbatim>\<open>directoryChanged(d, false)\<close> is emitted. At a tick after \<open>d\<close> was
  deleted, its entry is erased and \<^verbatim>\<open>directoryChanged(d, true)\<close> is emitted.
\<close>

theorem timeout_diff_witness:
  "distinct (map fst (files demo_engine)) \<and> distinct (map fst (directories demo_engine))
   \<and> map_of (files demo_engine) ''a'' = Some (demo_fs ''a'')
   \<and> map_of (files (fst (timeout demo_snapshot demo_differs demo_fs_later demo_fs_later
                          demo_engine))) ''a''
       = Some (demo_fs_later ''a'')
   \<and> file_signals ''a'' (snd (timeout demo_snapshot demo_differs demo_fs_later demo_fs_later
                                demo_engine))
       = [fileChanged ''a'' False]
   \<and> map_of (directories demo_engine) ''d'' = Some (demo_fs ''d/'')
   \<and> demo_fs_slash ''d'' = demo_fs ''d/''
   \<and> demo_fs_slash ''d/'' \<noteq> demo_fs ''d/''
   \<and> map_of (directories (fst (timeout demo_snapshot demo_differs demo_fs_slash demo_fs_slash
                                demo_engine))) ''d''
       = Some (demo_fs_slash ''d/'')
   \<and> directory_signals ''d'' (snd (timeout demo_snapshot demo_differs demo_fs_slash demo_fs_slash
                                     demo_engine))
       = [directoryChanged ''d'' False]
   \<and> map_of (directories (fst (timeout demo_snapshot demo_differs demo_fs_later demo_fs_later
                                demo_engine))) ''d''
       = None
   \<and> directory_signals ''d'' (snd (timeout demo_snapshot demo_differs demo_fs_later demo_fs_later
                                     demo_engine))
       = [directoryChanged ''d'' True]"
proof -
  have f: "distinct (map fst (files demo_engine))"
    and d: "distinct (map fst (directories demo_engine))"
    by (simp_all add: demo_engine_def)
  have m: "map_of (files demo_engine) ''a'' = Some (demo_fs ''a'')"
    and n: "map_of (directories demo_engine) ''d'' = Some (demo_fs ''d/'')"
    by (simp_all add: demo_engine_def)
  have s: "demo_fs_slash ''d'' = demo_fs ''d/''" and s': "demo_fs_slash ''d/'' \<noteq> demo_fs ''d/''"
    by (simp_all add: demo_fs_slash_def demo_fs_def)
  have path: "(if endsWith ''d'' CHR ''/'' then ''d'' else ''d'' @ ''/'') = ''d/''"
    by (simp add: endsWith_def)
  note later = timeout_diff [OF f d, where fs = demo_fs_later and fs' = demo_fs_later
      and snapshot = demo_snapshot and differs = demo_differs]
  note slash = timeout_diff [OF f d, where p = "''d''" and fs = demo_fs_slash
      and fs' = demo_fs_slash and snapshot = demo_snapshot and differs = demo_differs]
  from later [where p = "''a''"] m
  have a: "map_of (files (fst (timeout demo_snapshot demo_differs demo_fs_later demo_fs_later
                          demo_engine))) ''a''
       = Some (demo_fs_later ''a'')
     \<and> file_signals ''a'' (snd (timeout demo_snapshot demo_differs demo_fs_later demo_fs_later
                                demo_engine))
       = [fileChanged ''a'' False]"
    by (simp add: demo_fs_def demo_fs_later_def demo_snapshot_def demo_differs_def)
  from slash n
  have b: "map_of (directories (fst (timeout demo_snapshot demo_differs demo_fs_slash demo_fs_slash
                                demo_engine))) ''d''
       = Some (demo_fs_slash ''d/'')
     \<and> directory_signals ''d'' (snd (timeout demo_snapshot demo_differs demo_fs_slash
                                     demo_fs_slash demo_engine))
       = [directoryChanged ''d'' False]"
    by (simp add: path demo_fs_def demo_fs_slash_def demo_snapshot_def demo_differs_def)
  from later [where p = "''d''"] n
  have c: "map_of (directories (fst (timeout demo_snapshot demo_differs demo_fs_later demo_fs_later
                                demo_engine))) ''d''
       = None
     \<and> directory_signals ''d'' (snd (timeout demo_snapshot demo_differs demo_fs_later
                                     demo_fs_later demo_engine))
       = [directoryChanged ''d'' True]"
    by (simp add: path demo_fs_later_def)
  from f d m a n s s' b c show ?thesis by (intro conjI) simp_all
qed
subsection \<open>What addPaths returns and adds\<close>

lemma picked_Nil: "picked P [] = []"
  by (simp add: picked_def)

lemma picked_snoc: "picked P (xs @ [x]) = picked P xs @ (if P xs x then [x] else [])"
proof -
  define F where "F = (\<lambda>i. if P (take i (xs @ [x])) ((xs @ [x]) ! i) then [(xs @ [x]) ! i] else [])"
  define G where "G = (\<lambda>i. if P (take i xs) (xs ! i) then [xs ! i] else [])"
  have FG: "map F [0..<length xs] = map G [0..<length xs]"
    by (rule map_cong) (simp_all add: F_def G_def nth_append)
  have last: "F (length xs) = (if P xs x then [x] else [])"
    by (simp add: F_def)
  have "picked P (xs @ [x]) = concat (map F [0..<length (xs @ [x])])"
    unfolding picked_def F_def ..
  also have "\<dots> = concat (map F [0..<length xs]) @ F (length xs)"
    by simp
  also have "\<dots> = concat (map G [0..<length xs]) @ (if P xs x then [x] else [])"
    by (simp only: FG last)
  also have "concat (map G [0..<length xs]) = picked P xs"
    unfolding picked_def G_def ..
  finally show ?thesis .
qed

lemma set_picked_first:
  "set (picked (\<lambda>before p. Q p \<and> p \<notin> set before) xs) = {p \<in> set xs. Q p}"
  by (induction xs rule: rev_induct) (auto simp: picked_Nil picked_snoc)

lemma picked_repeat_free_or:
  "distinct xs \<Longrightarrow> picked (\<lambda>before p. Q p \<or> p \<in> set before) xs = filter Q xs"
  by (induction xs rule: rev_induct) (auto simp: picked_Nil picked_snoc)

lemma picked_repeat_free_and:
  "distinct xs \<Longrightarrow> picked (\<lambda>before p. Q p \<and> p \<notin> set before) xs = filter Q xs"
  by (induction xs rule: rev_induct) (auto simp: picked_Nil picked_snoc)

lemma addPaths_body_missing:
  "\<not> fi_exists (fs p) \<Longrightarrow> addPaths_body snapshot fs st p = st\<lparr>unhandled := unhandled st @ [p]\<rparr>"
  by (simp add: addPaths_body_def)

lemma addPaths_body_dir:
  "fi_exists (fs p) \<Longrightarrow> fi_isDir (fs p) \<Longrightarrow>
   addPaths_body snapshot fs st p =
     (if p \<in> set (c_directories st) then st\<lparr>unhandled := unhandled st @ [p]\<rparr>
      else st\<lparr>c_directories := c_directories st @ [p],
              eng := (eng st)\<lparr>directories := AList.update p (snapshot (dir_info fs p)) (directories (eng st))\<rparr>\<rparr>)"
  by (simp add: addPaths_body_def dir_info_def Let_def)

lemma addPaths_body_file:
  "fi_exists (fs p) \<Longrightarrow> \<not> fi_isDir (fs p) \<Longrightarrow>
   addPaths_body snapshot fs st p =
     (if p \<in> set (c_files st) then st\<lparr>unhandled := unhandled st @ [p]\<rparr>
      else st\<lparr>c_files := c_files st @ [p],
              eng := (eng st)\<lparr>files := AList.update p (snapshot (fs p)) (files (eng st))\<rparr>\<rparr>)"
  by (simp add: addPaths_body_def Let_def)

lemma addPaths_loop_lists:
  fixes fs :: "'m filesystem"
  defines "init \<equiv> \<lambda>e fls dirs. \<lparr>eng = e, c_files = fls, c_directories = dirs, unhandled = []\<rparr>"
  shows "unhandled (foldl (addPaths_body snapshot fs) (init e fls dirs) xs) =
           picked (\<lambda>before p. turned_down fs fls dirs p \<or> p \<in> set before) xs
       \<and> c_directories (foldl (addPaths_body snapshot fs) (init e fls dirs) xs) =
           dirs @ picked (\<lambda>before p. (\<not> turned_down fs fls dirs p \<and> fi_isDir (fs p)) \<and> p \<notin> set before) xs
       \<and> c_files (foldl (addPaths_body snapshot fs) (init e fls dirs) xs) =
           fls @ picked (\<lambda>before p. (\<not> turned_down fs fls dirs p \<and> \<not> fi_isDir (fs p)) \<and> p \<notin> set before) xs"
proof (induction xs rule: rev_induct)
  case Nil
  show ?case by (simp add: init_def picked_Nil)
next
  case (snoc x xs)
  let ?st = "foldl (addPaths_body snapshot fs) (init e fls dirs) xs"
  from snoc have u: "unhandled ?st = picked (\<lambda>before p. turned_down fs fls dirs p \<or> p \<in> set before) xs"
    and d: "c_directories ?st = dirs @ picked (\<lambda>before p. (\<not> turned_down fs fls dirs p \<and> fi_isDir (fs p)) \<and> p \<notin> set before) xs"
    and f: "c_files ?st = fls @ picked (\<lambda>before p. (\<not> turned_down fs fls dirs p \<and> \<not> fi_isDir (fs p)) \<and> p \<notin> set before) xs"
    by simp_all
  have sd: "set (c_directories ?st) = set dirs \<union> {p \<in> set xs. \<not> turned_down fs fls dirs p \<and> fi_isDir (fs p)}"
    by (simp only: d set_append set_picked_first)
  have sf: "set (c_files ?st) = set fls \<union> {p \<in> set xs. \<not> turned_down fs fls dirs p \<and> \<not> fi_isDir (fs p)}"
    by (simp only: f set_append set_picked_first)
  have md: "fi_exists (fs x) \<Longrightarrow> fi_isDir (fs x) \<Longrightarrow>
      x \<in> set (c_directories ?st) \<longleftrightarrow> turned_down fs fls dirs x \<or> x \<in> set xs"
    unfolding sd by (auto simp: turned_down_def)
  have mf: "fi_exists (fs x) \<Longrightarrow> \<not> fi_isDir (fs x) \<Longrightarrow>
      x \<in> set (c_files ?st) \<longleftrightarrow> turned_down fs fls dirs x \<or> x \<in> set xs"
    unfolding sf by (auto simp: turned_down_def)
  have td: "\<not> fi_exists (fs x) \<Longrightarrow> turned_down fs fls dirs x"
    by (simp add: turned_down_def)
  show ?case
  proof (cases "fi_exists (fs x)")
    case False
    with td u d f show ?thesis
      by (simp add: picked_snoc addPaths_body_missing)
  next
    case ex: True
    show ?thesis
    proof (cases "fi_isDir (fs x)")
      case True
      with ex md u d f show ?thesis
        by (simp add: picked_snoc addPaths_body_dir)
    next
      case False
      with ex mf u d f show ?thesis
        by (simp add: picked_snoc addPaths_body_file)
    qed
  qed
qed


lemma addPaths_loop_dirs_set:
  "set (c_directories (foldl (addPaths_body snapshot fs)
          \<lparr>eng = e, c_files = fls, c_directories = dirs, unhandled = []\<rparr> xs)) =
     set dirs \<union> {p \<in> set xs. \<not> turned_down fs fls dirs p \<and> fi_isDir (fs p)}"
  using addPaths_loop_lists [of snapshot fs e fls dirs xs]
  by (simp only: set_append set_picked_first)

lemma addPaths_loop_files_set:
  "set (c_files (foldl (addPaths_body snapshot fs)
          \<lparr>eng = e, c_files = fls, c_directories = dirs, unhandled = []\<rparr> xs)) =
     set fls \<union> {p \<in> set xs. \<not> turned_down fs fls dirs p \<and> \<not> fi_isDir (fs p)}"
  using addPaths_loop_lists [of snapshot fs e fls dirs xs]
  by (simp only: set_append set_picked_first)

lemma addPaths_loop_directories:
  "map_of (directories (eng (foldl (addPaths_body snapshot fs)
          \<lparr>eng = e, c_files = fls, c_directories = dirs, unhandled = []\<rparr> xs))) p =
     (if p \<in> set xs \<and> \<not> turned_down fs fls dirs p \<and> fi_isDir (fs p)
      then Some (snapshot (dir_info fs p)) else map_of (directories e) p)"
proof (induction xs rule: rev_induct)
  case Nil
  show ?case by simp
next
  case (snoc x xs)
  let ?st = "foldl (addPaths_body snapshot fs) \<lparr>eng = e, c_files = fls, c_directories = dirs, unhandled = []\<rparr> xs"
  note IH = snoc.IH
  note sd = addPaths_loop_dirs_set [of snapshot fs e fls dirs xs]
  show ?case
  proof (cases "fi_exists (fs x)")
    case False
    then have "turned_down fs fls dirs x" by (simp add: turned_down_def)
    with False IH show ?thesis by (auto simp: addPaths_body_missing)
  next
    case ex: True
    show ?thesis
    proof (cases "fi_isDir (fs x)")
      case False
      with ex IH show ?thesis by (auto simp: addPaths_body_file)
    next
      case dir: True
      show ?thesis
      proof (cases "x \<in> set (c_directories ?st)")
        case True
        with sd have "x \<in> set dirs \<or> (x \<in> set xs \<and> \<not> turned_down fs fls dirs x)" by auto
        moreover have "x \<in> set dirs \<Longrightarrow> turned_down fs fls dirs x"
          using dir by (simp add: turned_down_def)
        ultimately show ?thesis using True ex dir IH by (auto simp: addPaths_body_dir)
      next
        case False
        with sd have "x \<notin> set dirs" by auto
        with ex dir have "\<not> turned_down fs fls dirs x" by (simp add: turned_down_def)
        with False ex dir IH show ?thesis by (auto simp: addPaths_body_dir update_conv')
      qed
    qed
  qed
qed

lemma addPaths_loop_files:
  "map_of (files (eng (foldl (addPaths_body snapshot fs)
          \<lparr>eng = e, c_files = fls, c_directories = dirs, unhandled = []\<rparr> xs))) p =
     (if p \<in> set xs \<and> \<not> turned_down fs fls dirs p \<and> \<not> fi_isDir (fs p)
      then Some (snapshot (fs p)) else map_of (files e) p)"
proof (induction xs rule: rev_induct)
  case Nil
  show ?case by simp
next
  case (snoc x xs)
  let ?st = "foldl (addPaths_body snapshot fs) \<lparr>eng = e, c_files = fls, c_directories = dirs, unhandled = []\<rparr> xs"
  note IH = snoc.IH
  note sf = addPaths_loop_files_set [of snapshot fs e fls dirs xs]
  show ?case
  proof (cases "fi_exists (fs x)")
    case False
    then have "turned_down fs fls dirs x" by (simp add: turned_down_def)
    with False IH show ?thesis by (auto simp: addPaths_body_missing)
  next
    case ex: True
    show ?thesis
    proof (cases "fi_isDir (fs x)")
      case True
      with ex IH show ?thesis by (auto simp: addPaths_body_dir)
    next
      case nodir: False
      show ?thesis
      proof (cases "x \<in> set (c_files ?st)")
        case True
        with sf have "x \<in> set fls \<or> (x \<in> set xs \<and> \<not> turned_down fs fls dirs x)" by auto
        moreover have "x \<in> set fls \<Longrightarrow> turned_down fs fls dirs x"
          using nodir by (simp add: turned_down_def)
        ultimately show ?thesis using True ex nodir IH by (auto simp: addPaths_body_file)
      next
        case False
        with sf have "x \<notin> set fls" by auto
        with ex nodir have "\<not> turned_down fs fls dirs x" by (simp add: turned_down_def)
        with False ex nodir IH show ?thesis by (auto simp: addPaths_body_file update_conv')
      qed
    qed
  qed
qed

lemma start_timer_hashes:
  "files (start_timer e) = files e" "directories (start_timer e) = directories e"
  by (simp_all add: start_timer_def)

text \<open>
  Claim C2, as the code has it. \<^verbatim>\<open>addPaths\<close> returns, in the order of the input, every entry
  of \<open>paths\<close> that does not exist at the time of the call, or that the caller's list for
  its kind (\<^verbatim>\<open>directories\<close> if \<^verbatim>\<open>isDir()\<close>, \<^verbatim>\<open>files\<close> otherwise) holds already, or that stands
  earlier in \<open>paths\<close> too. Every other entry, that is the first occurrence of an existing
  path that the caller's list for its kind does not hold, is appended to that list and
  to no other, and the hash of its kind maps it to its snapshot afterwards: for a
  directory the snapshot of the \<^verbatim>\<open>QFileInfo\<close> of the path with a trailing slash, for a file
  that of the \<^verbatim>\<open>QFileInfo\<close> of the path. All other keys of the two hashes keep their values. When no path is repeated
  in \<open>paths\<close>, the returned list is the list of the input paths that do not exist or are
  held by the caller's list for their kind, and the appended ones are all the others.
\<close>

theorem addPaths_result:
  "unhandled (addPaths snapshot fs paths fls dirs e) =
     picked (\<lambda>before p. turned_down fs fls dirs p \<or> p \<in> set before) paths
   \<and> c_directories (addPaths snapshot fs paths fls dirs e) =
     dirs @ picked (\<lambda>before p. (\<not> turned_down fs fls dirs p \<and> fi_isDir (fs p)) \<and> p \<notin> set before) paths
   \<and> c_files (addPaths snapshot fs paths fls dirs e) =
     fls @ picked (\<lambda>before p. (\<not> turned_down fs fls dirs p \<and> \<not> fi_isDir (fs p)) \<and> p \<notin> set before) paths
   \<and> map_of (directories (eng (addPaths snapshot fs paths fls dirs e))) p =
     (if p \<in> set paths \<and> \<not> turned_down fs fls dirs p \<and> fi_isDir (fs p)
      then Some (snapshot (dir_info fs p)) else map_of (directories e) p)
   \<and> map_of (files (eng (addPaths snapshot fs paths fls dirs e))) p =
     (if p \<in> set paths \<and> \<not> turned_down fs fls dirs p \<and> \<not> fi_isDir (fs p)
      then Some (snapshot (fs p)) else map_of (files e) p)
   \<and> (distinct paths \<longrightarrow>
        unhandled (addPaths snapshot fs paths fls dirs e) = filter (turned_down fs fls dirs) paths
      \<and> c_directories (addPaths snapshot fs paths fls dirs e) =
          dirs @ filter (\<lambda>p. \<not> turned_down fs fls dirs p \<and> fi_isDir (fs p)) paths
      \<and> c_files (addPaths snapshot fs paths fls dirs e) =
          fls @ filter (\<lambda>p. \<not> turned_down fs fls dirs p \<and> \<not> fi_isDir (fs p)) paths)"
proof -
  have lists:
    "unhandled (addPaths snapshot fs paths fls dirs e) =
       picked (\<lambda>before p. turned_down fs fls dirs p \<or> p \<in> set before) paths"
    "c_directories (addPaths snapshot fs paths fls dirs e) =
       dirs @ picked (\<lambda>before p. (\<not> turned_down fs fls dirs p \<and> fi_isDir (fs p)) \<and> p \<notin> set before) paths"
    "c_files (addPaths snapshot fs paths fls dirs e) =
       fls @ picked (\<lambda>before p. (\<not> turned_down fs fls dirs p \<and> \<not> fi_isDir (fs p)) \<and> p \<notin> set before) paths"
    using addPaths_loop_lists [of snapshot fs e fls dirs paths] by (simp_all add: addPaths_def Let_def)
  have hashes:
    "map_of (directories (eng (addPaths snapshot fs paths fls dirs e))) p =
       (if p \<in> set paths \<and> \<not> turned_down fs fls dirs p \<and> fi_isDir (fs p)
        then Some (snapshot (dir_info fs p)) else map_of (directories e) p)"
    "map_of (files (eng (addPaths snapshot fs paths fls dirs e))) p =
       (if p \<in> set paths \<and> \<not> turned_down fs fls dirs p \<and> \<not> fi_isDir (fs p)
        then Some (snapshot (fs p)) else map_of (files e) p)"
    using addPaths_loop_directories [of snapshot fs e fls dirs paths p]
      addPaths_loop_files [of snapshot fs e fls dirs paths p]
    by (simp_all add: addPaths_def Let_def start_timer_hashes)
  have plain: "distinct paths \<longrightarrow>
        unhandled (addPaths snapshot fs paths fls dirs e) = filter (turned_down fs fls dirs) paths
      \<and> c_directories (addPaths snapshot fs paths fls dirs e) =
          dirs @ filter (\<lambda>p. \<not> turned_down fs fls dirs p \<and> fi_isDir (fs p)) paths
      \<and> c_files (addPaths snapshot fs paths fls dirs e) =
          fls @ filter (\<lambda>p. \<not> turned_down fs fls dirs p \<and> \<not> fi_isDir (fs p)) paths"
  proof
    assume d: "distinct paths"
    show "unhandled (addPaths snapshot fs paths fls dirs e) = filter (turned_down fs fls dirs) paths
      \<and> c_directories (addPaths snapshot fs paths fls dirs e) =
          dirs @ filter (\<lambda>p. \<not> turned_down fs fls dirs p \<and> fi_isDir (fs p)) paths
      \<and> c_files (addPaths snapshot fs paths fls dirs e) =
          fls @ filter (\<lambda>p. \<not> turned_down fs fls dirs p \<and> \<not> fi_isDir (fs p)) paths"
      by (simp only: lists picked_repeat_free_or [OF d] picked_repeat_free_and [OF d] simp_thms)
  qed
  from lists hashes plain show ?thesis by (intro conjI)
qed

text \<open>
  On the small file system, adding \<open>a\<close>, \<open>d\<close> and a path that does not exist to an engine
  that watches nothing: only the path that does not exist comes back.
\<close>

theorem addPaths_result_witness:
  "distinct [''a'', ''d'', ''x'']
   \<and> unhandled (addPaths demo_snapshot demo_fs [''a'', ''d'', ''x''] [] [] new_engine) = [''x'']
   \<and> filter (turned_down demo_fs [] []) [''a'', ''d'', ''x''] = [''x'']
   \<and> c_directories (addPaths demo_snapshot demo_fs [''a'', ''d'', ''x''] [] [] new_engine) = [''d'']
   \<and> map_of (directories (eng (addPaths demo_snapshot demo_fs [''a'', ''d'', ''x''] [] [] new_engine))) ''d''
       = Some (demo_fs ''d/'')"
proof -
  have d: "distinct [''a'', ''d'', ''x'']" by simp
  have t: "filter (turned_down demo_fs [] []) [''a'', ''d'', ''x''] = [''x'']"
    by (simp add: turned_down_def demo_fs_def)
  have i: "dir_info demo_fs ''d'' = demo_fs ''d/''"
    by (simp add: dir_info_def endsWith_def)
  note r = addPaths_result [where snapshot = demo_snapshot and fs = demo_fs and paths = "[''a'', ''d'', ''x'']" and fls = "[]"
      and dirs = "[]" and e = new_engine and p = "''d''"]
  from r d have "unhandled (addPaths demo_snapshot demo_fs [''a'', ''d'', ''x''] [] [] new_engine)
      = filter (turned_down demo_fs [] []) [''a'', ''d'', ''x'']"
    by blast
  with t have u: "unhandled (addPaths demo_snapshot demo_fs [''a'', ''d'', ''x''] [] [] new_engine) = [''x'']"
    by simp
  from r d have "c_directories (addPaths demo_snapshot demo_fs [''a'', ''d'', ''x''] [] [] new_engine)
      = [] @ filter (\<lambda>p. \<not> turned_down demo_fs [] [] p \<and> fi_isDir (demo_fs p)) [''a'', ''d'', ''x'']"
    by blast
  then have c: "c_directories (addPaths demo_snapshot demo_fs [''a'', ''d'', ''x''] [] [] new_engine) = [''d'']"
    by (simp add: turned_down_def demo_fs_def)
  from r have "map_of (directories (eng (addPaths demo_snapshot demo_fs [''a'', ''d'', ''x''] [] [] new_engine))) ''d''
      = (if ''d'' \<in> set [''a'', ''d'', ''x''] \<and> \<not> turned_down demo_fs [] [] ''d''
            \<and> fi_isDir (demo_fs ''d'')
         then Some (demo_snapshot (dir_info demo_fs ''d''))
         else map_of (directories (new_engine :: nat QFileInfo engine)) ''d'')"
    by blast
  then have m: "map_of (directories (eng (addPaths demo_snapshot demo_fs [''a'', ''d'', ''x''] [] [] new_engine))) ''d''
      = Some (demo_fs ''d/'')"
    by (simp add: turned_down_def demo_fs_def demo_snapshot_def i)
  from d t u c m show ?thesis by (intro conjI)
qed

text \<open>
  The claim as it is written fails when a path is repeated: \<open>a\<close> exists and the caller's
  list does not hold it, and it is returned as unhandled although it was added to the
  caller's list and to the hash.
\<close>

theorem addPaths_repeated_path_counterexample:
  "\<not> turned_down demo_fs [] [] ''a''
   \<and> unhandled (addPaths demo_snapshot demo_fs [''a'', ''a''] [] [] new_engine) = [''a'']
   \<and> c_files (addPaths demo_snapshot demo_fs [''a'', ''a''] [] [] new_engine) = [''a'']
   \<and> files (eng (addPaths demo_snapshot demo_fs [''a'', ''a''] [] [] new_engine)) = [(''a'', demo_fs ''a'')]"
  by (simp add: addPaths_def addPaths_body_def demo_fs_def demo_snapshot_def new_engine_def
      turned_down_def start_timer_def)
subsection \<open>What removePaths returns and removes\<close>

lemma hash_contains_filter:
  "hash_contains (filter (\<lambda>kv. Q (fst kv)) h) k \<longleftrightarrow> hash_contains h k \<and> Q k"
  by (auto simp: hash_contains_def)

lemma delete_filter: "AList.delete k (filter Q h) = filter (\<lambda>kv. Q kv \<and> fst kv \<noteq> k) h"
  by (induction h) (auto simp: AList.delete_eq)

lemma removeAll_filter: "removeAll k (filter Q xs) = filter (\<lambda>q. Q q \<and> q \<noteq> k) xs"
  by (induction xs) auto

lemma removePaths_loop:
  fixes e :: "'m engine" and fls dirs :: "string list"
  defines "st \<equiv> foldl removePaths_body \<lparr>eng = e, c_files = fls, c_directories = dirs, unhandled = []\<rparr>"
  shows "directories (eng (st xs)) = filter (\<lambda>kv. fst kv \<notin> set xs) (directories e)
     \<and> files (eng (st xs)) = filter (\<lambda>kv. count_list xs (fst kv) \<le> as_directory e (fst kv)) (files e)
     \<and> c_directories (st xs) = filter (\<lambda>q. \<not> (q \<in> set xs \<and> hash_contains (directories e) q)) dirs
     \<and> c_files (st xs) = filter (\<lambda>q. \<not> (hash_contains (files e) q \<and> as_directory e q < count_list xs q)) fls
     \<and> unhandled (st xs) = picked (\<lambda>before p. watched_in e p \<le> count_list before p) xs"
proof (induction xs rule: rev_induct)
  case Nil
  show ?case by (simp add: st_def picked_Nil)
next
  case (snoc x xs)
  from snoc have d: "directories (eng (st xs)) = filter (\<lambda>kv. fst kv \<notin> set xs) (directories e)"
    and f: "files (eng (st xs)) = filter (\<lambda>kv. count_list xs (fst kv) \<le> as_directory e (fst kv)) (files e)"
    and cd: "c_directories (st xs) = filter (\<lambda>q. \<not> (q \<in> set xs \<and> hash_contains (directories e) q)) dirs"
    and cf: "c_files (st xs) = filter (\<lambda>q. \<not> (hash_contains (files e) q \<and> as_directory e q < count_list xs q)) fls"
    and u: "unhandled (st xs) = picked (\<lambda>before p. watched_in e p \<le> count_list before p) xs"
    by simp_all
  have step: "st (xs @ [x]) = removePaths_body (st xs) x" by (simp add: st_def)
  have hd: "hash_contains (directories (eng (st xs))) x \<longleftrightarrow> hash_contains (directories e) x \<and> x \<notin> set xs"
    unfolding d by (rule hash_contains_filter)
  have hf: "hash_contains (files (eng (st xs))) x \<longleftrightarrow>
      hash_contains (files e) x \<and> count_list xs x \<le> as_directory e x"
    unfolding f by (rule hash_contains_filter)
  have c0: "x \<notin> set xs \<longleftrightarrow> count_list xs x = 0" by (simp add: count_list_0_iff)
  show ?case
  proof (cases "hash_contains (directories (eng (st xs))) x")
    case True
    with hd have D: "hash_contains (directories e) x" and nx: "x \<notin> set xs" by auto
    from nx have cx: "count_list xs x = 0" by (simp add: c0)
    have s: "removePaths_body (st xs) x =
        (st xs)\<lparr>eng := (eng (st xs))\<lparr>directories := AList.delete x (directories (eng (st xs)))\<rparr>,
           c_directories := removeAll x (c_directories (st xs))\<rparr>"
      using True by (simp add: removePaths_body_def)
    have 1: "directories (eng (st (xs @ [x]))) = filter (\<lambda>kv. fst kv \<notin> set (xs @ [x])) (directories e)"
      unfolding step s by (simp add: d delete_filter) (rule filter_cong, auto)
    have 2: "files (eng (st (xs @ [x]))) =
        filter (\<lambda>kv. count_list (xs @ [x]) (fst kv) \<le> as_directory e (fst kv)) (files e)"
      unfolding step s using D cx by (simp add: f) (rule filter_cong, auto simp: as_directory_def)
    have 3: "c_directories (st (xs @ [x])) =
        filter (\<lambda>q. \<not> (q \<in> set (xs @ [x]) \<and> hash_contains (directories e) q)) dirs"
      unfolding step s using D by (simp add: cd removeAll_filter) (rule filter_cong, auto)
    have 4: "c_files (st (xs @ [x])) =
        filter (\<lambda>q. \<not> (hash_contains (files e) q \<and> as_directory e q < count_list (xs @ [x]) q)) fls"
      unfolding step s using D cx by (simp add: cf) (rule filter_cong, auto simp: as_directory_def)
    have 5: "unhandled (st (xs @ [x])) =
        picked (\<lambda>before p. watched_in e p \<le> count_list before p) (xs @ [x])"
      unfolding step s using D cx by (simp add: u picked_snoc watched_in_def as_directory_def as_file_def)
    from 1 2 3 4 5 show ?thesis by blast
  next
    case nd: False
    with hd have ge: "as_directory e x \<le> count_list xs x"
      by (auto simp: as_directory_def c0)
    have dsame: "filter (\<lambda>kv. fst kv \<notin> set (xs @ [x])) (directories e) =
        filter (\<lambda>kv. fst kv \<notin> set xs) (directories e)"
      using nd hd by (intro filter_cong) (auto simp: hash_contains_def)
    have cdsame: "filter (\<lambda>q. \<not> (q \<in> set (xs @ [x]) \<and> hash_contains (directories e) q)) dirs =
        filter (\<lambda>q. \<not> (q \<in> set xs \<and> hash_contains (directories e) q)) dirs"
      using nd hd by (intro filter_cong) auto
    show ?thesis
    proof (cases "hash_contains (files (eng (st xs))) x")
      case True
      with hf have F: "hash_contains (files e) x" and le: "count_list xs x \<le> as_directory e x" by auto
      from le ge have eq: "count_list xs x = as_directory e x" by simp
      have s: "removePaths_body (st xs) x =
          (st xs)\<lparr>eng := (eng (st xs))\<lparr>files := AList.delete x (files (eng (st xs)))\<rparr>,
             c_files := removeAll x (c_files (st xs))\<rparr>"
        using nd True by (simp add: removePaths_body_def)
      have 1: "directories (eng (st (xs @ [x]))) = filter (\<lambda>kv. fst kv \<notin> set (xs @ [x])) (directories e)"
        unfolding step s dsame by (simp add: d)
      have 2: "files (eng (st (xs @ [x]))) =
          filter (\<lambda>kv. count_list (xs @ [x]) (fst kv) \<le> as_directory e (fst kv)) (files e)"
        unfolding step s using eq by (simp add: f delete_filter) (rule filter_cong, auto)
      have 3: "c_directories (st (xs @ [x])) =
          filter (\<lambda>q. \<not> (q \<in> set (xs @ [x]) \<and> hash_contains (directories e) q)) dirs"
        unfolding step s cdsame by (simp add: cd)
      have 4: "c_files (st (xs @ [x])) =
          filter (\<lambda>q. \<not> (hash_contains (files e) q \<and> as_directory e q < count_list (xs @ [x]) q)) fls"
        unfolding step s using F eq by (simp add: cf removeAll_filter) (rule filter_cong, auto)
      have 5: "unhandled (st (xs @ [x])) =
          picked (\<lambda>before p. watched_in e p \<le> count_list before p) (xs @ [x])"
        unfolding step s using F eq by (simp add: u picked_snoc watched_in_def as_directory_def as_file_def)
      from 1 2 3 4 5 show ?thesis by blast
    next
      case nf: False
      with hf have w: "watched_in e x \<le> count_list xs x"
        using ge by (auto simp: watched_in_def as_directory_def as_file_def split: if_splits)
      have s: "removePaths_body (st xs) x = (st xs)\<lparr>unhandled := unhandled (st xs) @ [x]\<rparr>"
        using nd nf by (simp add: removePaths_body_def)
      have 1: "directories (eng (st (xs @ [x]))) = filter (\<lambda>kv. fst kv \<notin> set (xs @ [x])) (directories e)"
        unfolding step s dsame by (simp add: d)
      have 2: "files (eng (st (xs @ [x]))) =
          filter (\<lambda>kv. count_list (xs @ [x]) (fst kv) \<le> as_directory e (fst kv)) (files e)"
        unfolding step s using nf hf
        by (simp add: f) (rule filter_cong, auto simp: hash_contains_def)
      have 3: "c_directories (st (xs @ [x])) =
          filter (\<lambda>q. \<not> (q \<in> set (xs @ [x]) \<and> hash_contains (directories e) q)) dirs"
        unfolding step s cdsame by (simp add: cd)
      have 4: "c_files (st (xs @ [x])) =
          filter (\<lambda>q. \<not> (hash_contains (files e) q \<and> as_directory e q < count_list (xs @ [x]) q)) fls"
        unfolding step s using nf hf by (simp add: cf) (rule filter_cong, auto)
      have 5: "unhandled (st (xs @ [x])) =
          picked (\<lambda>before p. watched_in e p \<le> count_list before p) (xs @ [x])"
        unfolding step s using w by (simp add: u picked_snoc)
      from 1 2 3 4 5 show ?thesis by blast
    qed
  qed
qed


lemma stop_timer_hashes:
  "files (stop_timer e) = files e" "directories (stop_timer e) = directories e"
  by (simp_all add: stop_timer_def)

lemma picked_repeat_free_count:
  "distinct xs \<Longrightarrow> picked (\<lambda>before p. w p \<le> count_list before p) xs = filter (\<lambda>p. w p = (0::nat)) xs"
  by (induction xs rule: rev_induct) (auto simp: picked_Nil picked_snoc)

lemma map_of_filter_key:
  "map_of (filter (\<lambda>kv. Q (fst kv)) al) k = (if Q k then map_of al k else None)"
  by (induction al) (auto simp: map_of_eq_None_iff)

text \<open>
  Claim C3, as the code has it. \<^verbatim>\<open>removePaths\<close> returns, in the order of the input, every
  entry of \<open>paths\<close> that is a key of neither hash when the loop comes to it: these are the
  entries before which the same path stands at least as often in \<open>paths\<close> as there were
  hashes holding it at the time of the call (0, 1 or 2). Every input path that was a
  watched directory is removed from the hash \<^verbatim>\<open>directories\<close> and from the caller's list of
  directories. An input path is removed from the hash \<^verbatim>\<open>files\<close> and from the caller's list
  of files exactly when it was a watched file and either was no watched directory or
  stands in \<open>paths\<close> more than once. All other keys of the hashes keep their values, and
  all other entries of the caller's lists stay, in their order. When no path is
  repeated in \<open>paths\<close>, the returned list is the list of the input paths that were watched
  neither as a directory nor as a file.
\<close>

theorem removePaths_result:
  "unhandled (removePaths paths fls dirs e) =
     picked (\<lambda>before p. watched_in e p \<le> count_list before p) paths
   \<and> map_of (directories (eng (removePaths paths fls dirs e))) p =
     (if p \<in> set paths then None else map_of (directories e) p)
   \<and> map_of (files (eng (removePaths paths fls dirs e))) p =
     (if as_directory e p < count_list paths p then None else map_of (files e) p)
   \<and> c_directories (removePaths paths fls dirs e) =
     filter (\<lambda>q. \<not> (q \<in> set paths \<and> hash_contains (directories e) q)) dirs
   \<and> c_files (removePaths paths fls dirs e) =
     filter (\<lambda>q. \<not> (hash_contains (files e) q \<and> as_directory e q < count_list paths q)) fls
   \<and> (distinct paths \<longrightarrow>
        unhandled (removePaths paths fls dirs e) = filter (\<lambda>p. watched_in e p = 0) paths)"
proof -
  have main:
    "unhandled (removePaths paths fls dirs e) =
       picked (\<lambda>before p. watched_in e p \<le> count_list before p) paths"
    "directories (eng (removePaths paths fls dirs e)) =
       filter (\<lambda>kv. fst kv \<notin> set paths) (directories e)"
    "files (eng (removePaths paths fls dirs e)) =
       filter (\<lambda>kv. count_list paths (fst kv) \<le> as_directory e (fst kv)) (files e)"
    "c_directories (removePaths paths fls dirs e) =
       filter (\<lambda>q. \<not> (q \<in> set paths \<and> hash_contains (directories e) q)) dirs"
    "c_files (removePaths paths fls dirs e) =
       filter (\<lambda>q. \<not> (hash_contains (files e) q \<and> as_directory e q < count_list paths q)) fls"
    using removePaths_loop [of e fls dirs paths]
    by (simp_all add: removePaths_def Let_def stop_timer_hashes)
  have d: "map_of (directories (eng (removePaths paths fls dirs e))) p =
      (if p \<in> set paths then None else map_of (directories e) p)"
    unfolding main(2) map_of_filter_key [of "\<lambda>k. k \<notin> set paths"] by simp
  have f: "map_of (files (eng (removePaths paths fls dirs e))) p =
      (if as_directory e p < count_list paths p then None else map_of (files e) p)"
    unfolding main(3) map_of_filter_key [of "\<lambda>k. count_list paths k \<le> as_directory e k"]
    by (simp add: not_le)
  have plain: "distinct paths \<longrightarrow>
      unhandled (removePaths paths fls dirs e) = filter (\<lambda>p. watched_in e p = 0) paths"
  proof
    assume d: "distinct paths"
    show "unhandled (removePaths paths fls dirs e) = filter (\<lambda>p. watched_in e p = 0) paths"
      by (simp only: main picked_repeat_free_count [OF d])
  qed
  from main(1) d f main(4) main(5) plain show ?thesis by (intro conjI)
qed

text \<open>
  The engine that watches the file \<open>a\<close> and the directory \<open>d\<close>, asked to remove \<open>a\<close> and a
  path it does not watch: the latter comes back, \<open>a\<close> leaves the hash and the caller's
  list, \<open>d\<close> stays.
\<close>

theorem removePaths_result_witness:
  "distinct [''a'', ''x'']
   \<and> unhandled (removePaths [''a'', ''x''] [''a''] [''d''] demo_engine) = [''x'']
   \<and> filter (\<lambda>p. watched_in demo_engine p = 0) [''a'', ''x''] = [''x'']
   \<and> map_of (files (eng (removePaths [''a'', ''x''] [''a''] [''d''] demo_engine))) ''a'' = None
   \<and> c_files (removePaths [''a'', ''x''] [''a''] [''d''] demo_engine) = []
   \<and> c_directories (removePaths [''a'', ''x''] [''a''] [''d''] demo_engine) = [''d'']"
proof -
  have d: "distinct [''a'', ''x'']" by simp
  have w: "filter (\<lambda>p. watched_in demo_engine p = 0) [''a'', ''x''] = [''x'']"
    by (simp add: watched_in_def as_directory_def as_file_def hash_contains_def demo_engine_def)
  note r = removePaths_result [where paths = "[''a'', ''x'']" and fls = "[''a'']"
      and dirs = "[''d'']" and e = demo_engine and p = "''a''"]
  from r d have "unhandled (removePaths [''a'', ''x''] [''a''] [''d''] demo_engine)
      = filter (\<lambda>p. watched_in demo_engine p = 0) [''a'', ''x'']"
    by blast
  with w have u: "unhandled (removePaths [''a'', ''x''] [''a''] [''d''] demo_engine) = [''x'']"
    by simp
  from r have "map_of (files (eng (removePaths [''a'', ''x''] [''a''] [''d''] demo_engine))) ''a''
      = (if as_directory demo_engine ''a'' < count_list [''a'', ''x''] ''a'' then None
         else map_of (files demo_engine) ''a'')"
    by blast
  then have f: "map_of (files (eng (removePaths [''a'', ''x''] [''a''] [''d''] demo_engine))) ''a''
      = None"
    by (simp add: as_directory_def hash_contains_def demo_engine_def)
  from r have "c_files (removePaths [''a'', ''x''] [''a''] [''d''] demo_engine)
      = filter (\<lambda>q. \<not> (hash_contains (files demo_engine) q
                        \<and> as_directory demo_engine q < count_list [''a'', ''x''] q)) [''a'']"
    by blast
  then have h: "c_files (removePaths [''a'', ''x''] [''a''] [''d''] demo_engine) = []"
    by (simp add: as_directory_def hash_contains_def demo_engine_def)
  from r have "c_directories (removePaths [''a'', ''x''] [''a''] [''d''] demo_engine)
      = filter (\<lambda>q. \<not> (q \<in> set [''a'', ''x''] \<and> hash_contains (directories demo_engine) q)) [''d'']"
    by blast
  then have k: "c_directories (removePaths [''a'', ''x''] [''a''] [''d''] demo_engine) = [''d'']"
    by simp
  from d u w f h k show ?thesis by (intro conjI)
qed

text \<open>
  The claim as it is written fails when a path is repeated: \<open>a\<close> was watched as a file
  and is returned as unhandled.
\<close>

theorem removePaths_repeated_path_counterexample:
  "hash_contains (files demo_engine) ''a''
   \<and> unhandled (removePaths [''a'', ''a''] [''a''] [''d''] demo_engine) = [''a'']"
  by (simp add: removePaths_def removePaths_body_def demo_engine_def hash_contains_def
      stop_timer_def)
section \<open>Properties of the Android assets file engine\<close>

subsection \<open>The accessors of a folder iterator\<close>

text \<open>
  From an index of at least \<open>-1\<close>, \<^verbatim>\<open>next()\<close> does not read outside the vector, and the
  index stays at least \<open>-1\<close>.
\<close>

lemma next_it_from_minus_one:
  assumes "- 1 \<le> m_index it"
  shows "next_it it =
     (if \<not> hasNext it then Inr (None, it)
      else Inr (Some (item_name (items it ! nat (m_index it + 1)), items it ! nat (m_index it + 1)),
                it\<lparr>m_index := m_index it + 1\<rparr>))"
  using assms
  by (auto simp: next_it_def hasNext_def at_it_def size_it_def currentFileName_def Let_def)

lemma next_it_index:
  assumes "- 1 \<le> m_index it" and "next_it it = Inr (r, it')"
  shows "- 1 \<le> m_index it'"
  using assms by (auto simp: next_it_from_minus_one split: if_splits)

lemma after_next_reaches:
  "\<exists>it. after_next n (FolderIterator_new lac path) = Inr it \<and> - 1 \<le> m_index it"
proof (induction n)
  case 0
  show ?case by (simp add: FolderIterator_new_def)
next
  case (Suc n)
  then obtain it where it: "after_next n (FolderIterator_new lac path) = Inr it"
    and i: "- 1 \<le> m_index it" by blast
  from i show ?case
    by (simp add: it next_it_from_minus_one)
qed

lemma next_it_below:
  assumes "hasNext it" and "m_index it < - 1"
  shows "next_it it = Inl OutOfRange"
  using assms by (simp add: next_it_def at_it_def Let_def)

text \<open>
  Claim C9. For any iterator \<open>it\<close>, whatever its index: \<^verbatim>\<open>currentFileName\<close> and
  \<^verbatim>\<open>currentFilePath\<close> return the empty string when the index is below 0 or at least
  \<^verbatim>\<open>size()\<close>; \<^verbatim>\<open>next()\<close> returns the empty optional and leaves the iterator as it is when
  \<^verbatim>\<open>hasNext()\<close> is false; and when \<^verbatim>\<open>hasNext()\<close> is true, \<^verbatim>\<open>next()\<close> does not return the empty
  optional: from an index of at least \<open>-1\<close> it advances the index by one and returns the
  entry at the new index with its name, which is inside the vector, and from an index
  below \<open>-1\<close> it reads outside the vector. For every iterator \<open>r\<close> the code can make
  (constructed for any path over any listing, then advanced by \<^verbatim>\<open>next()\<close> any number of
  times) no call fails, and the same three statements hold with the index of \<open>r\<close> at
  least \<open>-1\<close>.
\<close>

theorem FolderIterator_accessors:
  "((m_index it < 0 \<or> size_it it \<le> m_index it) \<longrightarrow>
       currentFileName it = [] \<and> currentFilePath it = [])
   \<and> (\<not> hasNext it \<longrightarrow> next_it it = Inr (None, it))
   \<and> (hasNext it \<longrightarrow>
        next_it it =
          (if m_index it < - 1 then Inl OutOfRange
           else Inr (Some (item_name (items it ! nat (m_index it + 1)),
                           items it ! nat (m_index it + 1)),
                     it\<lparr>m_index := m_index it + 1\<rparr>))
      \<and> m_index it + 1 < size_it it)
   \<and> (case after_next n (FolderIterator_new lac path) of
         Inl f \<Rightarrow> False
       | Inr r \<Rightarrow>
           ((m_index r < 0 \<or> size_it r \<le> m_index r) \<longrightarrow>
               currentFileName r = [] \<and> currentFilePath r = [])
         \<and> (\<not> hasNext r \<longrightarrow> next_it r = Inr (None, r))
         \<and> (hasNext r \<longrightarrow>
               0 \<le> m_index r + 1 \<and> m_index r + 1 < size_it r
             \<and> next_it r =
                 Inr (Some (item_name (items r ! nat (m_index r + 1)),
                            items r ! nat (m_index r + 1)),
                      r\<lparr>m_index := m_index r + 1\<rparr>)))"
proof -
  have a: "(m_index x < 0 \<or> size_it x \<le> m_index x) \<longrightarrow>
      currentFileName x = [] \<and> currentFilePath x = []" for x
    by (auto simp: currentFileName_def currentFilePath_def)
  have b: "\<not> hasNext x \<longrightarrow> next_it x = Inr (None, x)" for x
    by (simp add: next_it_def)
  have c: "hasNext it \<longrightarrow>
        next_it it =
          (if m_index it < - 1 then Inl OutOfRange
           else Inr (Some (item_name (items it ! nat (m_index it + 1)),
                           items it ! nat (m_index it + 1)),
                     it\<lparr>m_index := m_index it + 1\<rparr>))
      \<and> m_index it + 1 < size_it it"
  proof
    assume h: "hasNext it"
    then have s: "m_index it + 1 < size_it it" by (simp add: hasNext_def)
    show "next_it it =
          (if m_index it < - 1 then Inl OutOfRange
           else Inr (Some (item_name (items it ! nat (m_index it + 1)),
                           items it ! nat (m_index it + 1)),
                     it\<lparr>m_index := m_index it + 1\<rparr>))
      \<and> m_index it + 1 < size_it it"
    proof (cases "m_index it < - 1")
      case True
      with h s show ?thesis by (simp add: next_it_below)
    next
      case False
      then have "- 1 \<le> m_index it" by simp
      with h s False show ?thesis by (simp add: next_it_from_minus_one)
    qed
  qed
  obtain r where r: "after_next n (FolderIterator_new lac path) = Inr r"
    and i: "- 1 \<le> m_index r"
    using after_next_reaches by blast
  have d: "hasNext r \<longrightarrow> 0 \<le> m_index r + 1 \<and> m_index r + 1 < size_it r
         \<and> next_it r =
             Inr (Some (item_name (items r ! nat (m_index r + 1)),
                        items r ! nat (m_index r + 1)),
                  r\<lparr>m_index := m_index r + 1\<rparr>)"
    using i by (auto simp: next_it_from_minus_one hasNext_def)
  have reach: "case after_next n (FolderIterator_new lac path) of
         Inl f \<Rightarrow> False
       | Inr r \<Rightarrow>
           ((m_index r < 0 \<or> size_it r \<le> m_index r) \<longrightarrow>
               currentFileName r = [] \<and> currentFilePath r = [])
         \<and> (\<not> hasNext r \<longrightarrow> next_it r = Inr (None, r))
         \<and> (hasNext r \<longrightarrow>
               0 \<le> m_index r + 1 \<and> m_index r + 1 < size_it r
             \<and> next_it r =
                 Inr (Some (item_name (items r ! nat (m_index r + 1)),
                            items r ! nat (m_index r + 1)),
                      r\<lparr>m_index := m_index r + 1\<rparr>))"
    using a [of r] b [of r] d by (simp only: r sum.case)
  from a [of it] b [of it] c reach show ?thesis by (intro conjI)
qed

text \<open>
  The iterator of the root folder of the small listing after one call: \<^verbatim>\<open>hasNext()\<close> holds
  and the next call returns the second entry. The same iterator with its index set to
  the size of the vector, and to \<open>-1\<close>: the two accessors return the empty string.
\<close>

theorem FolderIterator_accessors_witness:
  "after_next 1 (FolderIterator_new demo_listing []) = Inr demo_iterator
   \<and> hasNext demo_iterator
   \<and> next_it demo_iterator =
       Inr (Some (''a.txt'', \<lparr>item_type = File, item_name = ''a.txt''\<rparr>),
            demo_iterator\<lparr>m_index := 1\<rparr>)
   \<and> size_it (demo_iterator\<lparr>m_index := 2\<rparr>) = 2
   \<and> currentFileName (demo_iterator\<lparr>m_index := 2\<rparr>) = []
   \<and> currentFilePath (demo_iterator\<lparr>m_index := 2\<rparr>) = []
   \<and> currentFileName (demo_iterator\<lparr>m_index := - 1\<rparr>) = []
   \<and> currentFilePath (demo_iterator\<lparr>m_index := - 1\<rparr>) = []
   \<and> currentFileName (demo_iterator\<lparr>m_index := 1\<rparr>) = ''a.txt''
   \<and> currentFilePath (demo_iterator\<lparr>m_index := 1\<rparr>) = ''assets:/a.txt''"
proof -
  have r: "after_next 1 (FolderIterator_new demo_listing []) = Inr demo_iterator"
    by (simp add: FolderIterator_new_def demo_listing_def next_it_def hasNext_def
        empty_it_def size_it_def at_it_def AssetItem_of_def endsWith_def currentFileName_def
        assetsPrefix_def Let_def demo_iterator_def)
  have h: "hasNext demo_iterator"
    by (simp add: hasNext_def empty_it_def size_it_def demo_iterator_def)
  from FolderIterator_accessors [where n = 1 and lac = demo_listing and path = "[]"
      and it = demo_iterator] r h
  have "next_it demo_iterator =
      Inr (Some (item_name (items demo_iterator ! nat (m_index demo_iterator + 1)),
                 items demo_iterator ! nat (m_index demo_iterator + 1)),
           demo_iterator\<lparr>m_index := m_index demo_iterator + 1\<rparr>)"
    by simp
  then have n: "next_it demo_iterator =
       Inr (Some (''a.txt'', \<lparr>item_type = File, item_name = ''a.txt''\<rparr>),
            demo_iterator\<lparr>m_index := 1\<rparr>)"
    by (simp add: demo_iterator_def)
  have s: "size_it (demo_iterator\<lparr>m_index := 2\<rparr>) = 2"
    by (simp add: size_it_def demo_iterator_def)
  then have up: "m_index (demo_iterator\<lparr>m_index := 2\<rparr>) < 0
      \<or> size_it (demo_iterator\<lparr>m_index := 2\<rparr>) \<le> m_index (demo_iterator\<lparr>m_index := 2\<rparr>)"
    by simp
  have lo: "m_index (demo_iterator\<lparr>m_index := - 1\<rparr>) < 0
      \<or> size_it (demo_iterator\<lparr>m_index := - 1\<rparr>) \<le> m_index (demo_iterator\<lparr>m_index := - 1\<rparr>)"
    by simp
  from FolderIterator_accessors [where n = 1 and lac = demo_listing and path = "[]"
      and it = "demo_iterator\<lparr>m_index := 2\<rparr>"] up
  have u: "currentFileName (demo_iterator\<lparr>m_index := 2\<rparr>) = []
      \<and> currentFilePath (demo_iterator\<lparr>m_index := 2\<rparr>) = []"
    by blast
  from FolderIterator_accessors [where n = 1 and lac = demo_listing and path = "[]"
      and it = "demo_iterator\<lparr>m_index := - 1\<rparr>"] lo
  have l: "currentFileName (demo_iterator\<lparr>m_index := - 1\<rparr>) = []
      \<and> currentFilePath (demo_iterator\<lparr>m_index := - 1\<rparr>) = []"
    by blast
  have inside: "currentFileName (demo_iterator\<lparr>m_index := 1\<rparr>) = ''a.txt''
      \<and> currentFilePath (demo_iterator\<lparr>m_index := 1\<rparr>) = ''assets:/a.txt''"
    by (simp add: currentFileName_def currentFilePath_def size_it_def demo_iterator_def)
  from r h n s u l inside show ?thesis by (intro conjI) simp_all
qed
subsection \<open>Cleaned asset paths\<close>

lemma has_three_slashes_tl: "has_three_slashes (tl s) \<Longrightarrow> has_three_slashes s"
  by (induction s rule: has_three_slashes.induct) auto

lemma has_three_slashes_drop: "has_three_slashes (drop n s) \<Longrightarrow> has_three_slashes s"
proof (induction n arbitrary: s)
  case 0
  then show ?case by simp
next
  case (Suc n)
  show ?case
  proof (cases s)
    case Nil
    with Suc.prems show ?thesis by simp
  next
    case (Cons a t)
    with Suc.prems have "has_three_slashes (drop n t)" by simp
    then have "has_three_slashes t" by (rule Suc.IH)
    then show ?thesis using Cons has_three_slashes_tl [of s] by simp
  qed
qed

lemma replace_slashes_hd:
  "replace_slashes s \<noteq> [] \<Longrightarrow> hd (replace_slashes s) = hd s"
  by (induction s rule: replace_slashes.induct) auto

lemma replace_slashes_Nil: "replace_slashes s = [] \<longleftrightarrow> s = []"
  by (induction s rule: replace_slashes.induct) auto

lemma has_two_slashes_Cons:
  "has_two_slashes (c # t) = ((t \<noteq> [] \<and> c = CHR ''/'' \<and> hd t = CHR ''/'') \<or> has_two_slashes t)"
  by (cases t) auto

lemma has_three_slashes_Cons2:
  "has_three_slashes (CHR ''/'' # CHR ''/'' # s) =
     ((s \<noteq> [] \<and> hd s = CHR ''/'') \<or> has_three_slashes (CHR ''/'' # s))"
  by (cases s) auto

lemma replace_slashes_no_two:
  "\<not> has_three_slashes s \<Longrightarrow> \<not> has_two_slashes (replace_slashes s)"
proof (induction s rule: replace_slashes.induct)
  case (1 a b s)
  show ?case
  proof (cases "a = CHR ''/'' \<and> b = CHR ''/''")
    case True
    from "1.prems" True have "\<not> has_three_slashes (CHR ''/'' # CHR ''/'' # s)"
      by simp
    then have h: "\<not> (s \<noteq> [] \<and> hd s = CHR ''/'')"
      and n3': "\<not> has_three_slashes (CHR ''/'' # s)"
      unfolding has_three_slashes_Cons2 by blast+
    from n3' have n3: "\<not> has_three_slashes s"
      using has_three_slashes_tl [of "CHR ''/'' # s"] by auto
    from "1.IH"(1) [OF True n3] have n2: "\<not> has_two_slashes (replace_slashes s)" .
    have "\<not> (replace_slashes s \<noteq> [] \<and> hd (replace_slashes s) = CHR ''/'')"
      using h replace_slashes_hd [of s] replace_slashes_Nil [of s] by auto
    with n2 have "\<not> has_two_slashes (CHR ''/'' # replace_slashes s)"
      by (simp only: has_two_slashes_Cons) simp
    with True show ?thesis by simp
  next
    case False
    from "1.prems" have n3: "\<not> has_three_slashes (b # s)"
      using has_three_slashes_tl [of "a # b # s"] by auto
    from "1.IH"(2) [OF False n3] have n2: "\<not> has_two_slashes (replace_slashes (b # s))" .
    have ne: "replace_slashes (b # s) \<noteq> []" by (simp add: replace_slashes_Nil)
    with replace_slashes_hd [of "b # s"] have hb: "hd (replace_slashes (b # s)) = b" by simp
    from n2 False hb have "\<not> has_two_slashes (a # replace_slashes (b # s))"
      by (simp only: has_two_slashes_Cons) auto
    with False show ?thesis by auto
  qed
qed simp_all

lemma has_two_slashes_tl: "has_two_slashes (tl s) \<Longrightarrow> has_two_slashes s"
  by (induction s rule: has_two_slashes.induct) auto

lemma has_two_slashes_butlast: "has_two_slashes (butlast s) \<Longrightarrow> has_two_slashes s"
  by (induction s rule: has_two_slashes.induct) (auto split: if_splits)

lemma no_two_slashes_end:
  "\<not> has_two_slashes s \<Longrightarrow> endsWith s CHR ''/'' \<Longrightarrow> \<not> endsWith (butlast s) CHR ''/''"
  by (induction s rule: has_two_slashes.induct) (auto simp: endsWith_def split: if_splits)

lemma no_two_slashes_start:
  "\<not> has_two_slashes s \<Longrightarrow> startsWith s CHR ''/'' \<Longrightarrow> \<not> startsWith (drop 1 s) CHR ''/''"
  by (cases s rule: has_two_slashes.cases) (auto simp: startsWith_def)

lemma startsWith_butlast:
  "\<not> startsWith s c \<Longrightarrow> \<not> startsWith (butlast s) c"
  by (cases s) (auto simp: startsWith_def)

text \<open>The last two steps of both normalisations.\<close>

lemma strip_ends_clean:
  assumes "\<not> has_two_slashes s"
  defines "s3 \<equiv> (if startsWith s CHR ''/'' then drop 1 s else s)"
  defines "s4 \<equiv> (if endsWith s3 CHR ''/'' then butlast s3 else s3)"
  shows "\<not> startsWith s4 CHR ''/'' \<and> \<not> endsWith s4 CHR ''/'' \<and> \<not> has_two_slashes s4"
proof -
  have a: "\<not> startsWith s3 CHR ''/''"
    using assms(1) no_two_slashes_start [of s] by (simp add: s3_def)
  have b: "\<not> has_two_slashes s3"
    using assms(1) has_two_slashes_tl [of s] by (auto simp: s3_def drop_Suc)
  have c: "\<not> startsWith s4 CHR ''/''"
    using a startsWith_butlast [of s3] by (simp add: s4_def)
  have d: "\<not> endsWith s4 CHR ''/''"
    using b no_two_slashes_end [of s3] by (auto simp: s4_def)
  have e: "\<not> has_two_slashes s4"
    using b has_two_slashes_butlast [of s3] by (auto simp: s4_def)
  from c d e show ?thesis by simp
qed

lemma cleanedAssetPath_clean:
  assumes "\<not> has_three_slashes file"
  shows "\<not> startsWith (cleanedAssetPath file) CHR ''/''
     \<and> \<not> endsWith (cleanedAssetPath file) CHR ''/''
     \<and> \<not> has_two_slashes (cleanedAssetPath file)"
proof -
  let ?f1 = "if prefix assetsPrefix file then drop prefixSize file else file"
  have "\<not> has_three_slashes ?f1"
    using assms has_three_slashes_drop [of prefixSize "file"] by auto
  then have "\<not> has_two_slashes (replace_slashes ?f1)" by (rule replace_slashes_no_two)
  from strip_ends_clean [OF this] show ?thesis
    by (simp add: cleanedAssetPath_def Let_def)
qed

lemma has_three_two: "has_three_slashes s \<Longrightarrow> has_two_slashes s"
  by (induction s rule: has_three_slashes.induct) auto

lemma create_path_cleaned: "prefix assetsPrefix file \<Longrightarrow> create_path file = cleanedAssetPath file"
  by (simp add: create_path_def cleanedAssetPath_def)

lemma cleanedAssetPath_prefix:
  "\<not> prefix assetsPrefix rest \<Longrightarrow> cleanedAssetPath (assetsPrefix @ rest) = cleanedAssetPath rest"
  by (simp add: cleanedAssetPath_def assetsPrefix_def prefixSize_def)

lemma setFileName_name:
  "m_fileName (fst (setFileName lac aopen file (en, s))) = cleanedAssetPath file"
  by (simp add: setFileName_def Let_def split_beta open_engine_def close_engine_def)

lemma create_name:
  "create lac aopen b fileName s = (Some en, s') \<Longrightarrow> m_fileName en = cleanedAssetPath (create_path fileName)"
  using setFileName_name [of lac aopen "create_path fileName" "\<lparr>m_assetFile = None, m_fileName = [], m_isFolder = b\<rparr>" s]
  by (auto simp: create_def AndroidAbstractFileEngine_new_def split_beta split: if_splits)

lemma create_Some:
  "(\<exists>en. fst (create lac aopen b file s) = Some en) \<longleftrightarrow> prefix assetsPrefix file"
  by (auto simp: create_def split_beta assetsPrefix_def)

text \<open>
  Claim C8, as the code has it. For a file name that begins with the prefix,
  \<^verbatim>\<open>create\<close> computes the path that \<^verbatim>\<open>cleanedAssetPath\<close> returns; \<^verbatim>\<open>cleanedAssetPath\<close> returns for
  the prefix followed by \<open>rest\<close> what it returns for \<open>rest\<close> (when \<open>rest\<close> does not begin with
  the prefix again); \<^verbatim>\<open>create\<close> returns an engine exactly for the file names that begin
  with the prefix, and the internal file name of the engine is that path cleaned once
  more by \<^verbatim>\<open>setFileName\<close>. For every string without three slashes in a row the result
  of \<^verbatim>\<open>cleanedAssetPath\<close> neither begins nor ends with a slash, and neither does the
  internal file name of the engine that \<^verbatim>\<open>create\<close> returns for it.
\<close>

theorem cleanedAssetPath_result:
  "(prefix assetsPrefix fileName \<longrightarrow> create_path fileName = cleanedAssetPath fileName)
   \<and> (\<not> prefix assetsPrefix rest \<longrightarrow>
        cleanedAssetPath (assetsPrefix @ rest) = cleanedAssetPath rest)
   \<and> (case fst (create lac aopen b fileName s) of
        None \<Rightarrow> \<not> prefix assetsPrefix fileName
      | Some en \<Rightarrow> prefix assetsPrefix fileName
          \<and> m_fileName en = cleanedAssetPath (cleanedAssetPath fileName))
   \<and> (\<not> has_three_slashes fileName \<longrightarrow>
        \<not> startsWith (cleanedAssetPath fileName) CHR ''/''
      \<and> \<not> endsWith (cleanedAssetPath fileName) CHR ''/''
      \<and> (case fst (create lac aopen b fileName s) of
            None \<Rightarrow> True
          | Some en \<Rightarrow> \<not> startsWith (m_fileName en) CHR ''/'' \<and> \<not> endsWith (m_fileName en) CHR ''/''))"
proof -
  have same: "prefix assetsPrefix fileName \<longrightarrow> create_path fileName = cleanedAssetPath fileName"
    by (simp add: create_path_cleaned)
  have pre: "\<not> prefix assetsPrefix rest \<longrightarrow>
      cleanedAssetPath (assetsPrefix @ rest) = cleanedAssetPath rest"
    by (simp add: cleanedAssetPath_prefix)
  have name: "case fst (create lac aopen b fileName s) of
        None \<Rightarrow> \<not> prefix assetsPrefix fileName
      | Some en \<Rightarrow> prefix assetsPrefix fileName
          \<and> m_fileName en = cleanedAssetPath (cleanedAssetPath fileName)"
  proof (cases "fst (create lac aopen b fileName s)")
    case None
    with create_Some [of lac aopen b fileName s] show ?thesis by simp
  next
    case (Some en)
    with create_Some [of lac aopen b fileName s] have p: "prefix assetsPrefix fileName" by simp
    from Some have "create lac aopen b fileName s = (Some en, snd (create lac aopen b fileName s))"
      by (simp add: prod_eq_iff)
    from create_name [OF this] p Some show ?thesis by (simp add: create_path_cleaned)
  qed
  have clean: "\<not> has_three_slashes fileName \<longrightarrow>
        \<not> startsWith (cleanedAssetPath fileName) CHR ''/''
      \<and> \<not> endsWith (cleanedAssetPath fileName) CHR ''/''
      \<and> (case fst (create lac aopen b fileName s) of
            None \<Rightarrow> True
          | Some en \<Rightarrow> \<not> startsWith (m_fileName en) CHR ''/'' \<and> \<not> endsWith (m_fileName en) CHR ''/'')"
  proof
    assume n3: "\<not> has_three_slashes fileName"
    note c1 = cleanedAssetPath_clean [OF n3]
    from c1 have "\<not> has_three_slashes (cleanedAssetPath fileName)"
      using has_three_two by blast
    note c2 = cleanedAssetPath_clean [OF this]
    from name c1 c2 show "\<not> startsWith (cleanedAssetPath fileName) CHR ''/''
      \<and> \<not> endsWith (cleanedAssetPath fileName) CHR ''/''
      \<and> (case fst (create lac aopen b fileName s) of
            None \<Rightarrow> True
          | Some en \<Rightarrow> \<not> startsWith (m_fileName en) CHR ''/'' \<and> \<not> endsWith (m_fileName en) CHR ''/'')"
      by (cases "fst (create lac aopen b fileName s)") simp_all
  qed
  from same pre name clean show ?thesis by (intro conjI)
qed

text \<open>A file name with the prefix and a doubled slash.\<close>

theorem cleanedAssetPath_result_witness:
  "prefix assetsPrefix ''assets:/img//x.png''
   \<and> \<not> has_three_slashes ''assets:/img//x.png''
   \<and> cleanedAssetPath ''assets:/img//x.png'' = ''img/x.png''
   \<and> create_path ''assets:/img//x.png'' = ''img/x.png''
   \<and> \<not> startsWith (cleanedAssetPath ''assets:/img//x.png'') CHR ''/''
   \<and> \<not> endsWith (cleanedAssetPath ''assets:/img//x.png'') CHR ''/''
   \<and> map_option m_fileName
        (fst (create demo_listing no_asset False ''assets:/img//x.png'' (assets_init 0)))
       = Some ''img/x.png''"
proof -
  have p: "prefix assetsPrefix ''assets:/img//x.png''"
    by (simp add: assetsPrefix_def)
  have n: "\<not> has_three_slashes ''assets:/img//x.png''"
    by simp
  have c: "cleanedAssetPath ''assets:/img//x.png'' = ''img/x.png''"
    by (simp add: cleanedAssetPath_def assetsPrefix_def prefixSize_def startsWith_def
        endsWith_def)
  have c': "cleanedAssetPath ''img/x.png'' = ''img/x.png''"
    by (simp add: cleanedAssetPath_def assetsPrefix_def prefixSize_def startsWith_def
        endsWith_def)
  note r = cleanedAssetPath_result [where fileName = "''assets:/img//x.png''"
      and lac = demo_listing and aopen = no_asset and b = False and s = "assets_init 0"
      and rest = "[]"]
  from r p c have cp: "create_path ''assets:/img//x.png'' = ''img/x.png''"
    by simp
  from r n have s: "\<not> startsWith (cleanedAssetPath ''assets:/img//x.png'') CHR ''/''"
    and e: "\<not> endsWith (cleanedAssetPath ''assets:/img//x.png'') CHR ''/''"
    by blast+
  from r have "case fst (create demo_listing no_asset False ''assets:/img//x.png'' (assets_init 0)) of
        None \<Rightarrow> \<not> prefix assetsPrefix ''assets:/img//x.png''
      | Some en \<Rightarrow> prefix assetsPrefix ''assets:/img//x.png''
          \<and> m_fileName en = cleanedAssetPath (cleanedAssetPath ''assets:/img//x.png'')"
    by blast
  with p c c' have m: "map_option m_fileName
        (fst (create demo_listing no_asset False ''assets:/img//x.png'' (assets_init 0)))
       = Some ''img/x.png''"
    by (cases "fst (create demo_listing no_asset False ''assets:/img//x.png'' (assets_init 0))")
      simp_all
  from p n c cp s e m show ?thesis by (intro conjI)
qed

text \<open>
  The claim as it is written fails for three slashes in a row: one pass of the
  replacement leaves two of them, and one is cut off. After seven slashes the file
  name of the engine still begins with one.
\<close>

theorem cleanedAssetPath_three_slashes_counterexample:
  "cleanedAssetPath ''///a'' = ''/a''
   \<and> startsWith (cleanedAssetPath ''///a'') CHR ''/''
   \<and> cleanedAssetPath ''a///'' = ''a/''
   \<and> endsWith (cleanedAssetPath ''a///'') CHR ''/''
   \<and> map_option m_fileName
        (fst (create demo_listing no_asset False ''assets:///////a'' (assets_init 0)))
       = Some ''/a''"
  by (simp add: cleanedAssetPath_def assetsPrefix_def prefixSize_def startsWith_def endsWith_def
      create_def create_path_def AndroidAbstractFileEngine_new_def setFileName_def
      open_engine_def close_engine_def no_asset_def split_beta Let_def)

subsection \<open>The cache of folder iterators\<close>

lemma cache_object_mx: "mx (snd (cache_object c k)) = mx c"
  by (simp add: cache_object_def split: option.splits)

lemma cache_insert_mx: "mx (snd (cache_insert c k a)) = mx c"
  by (simp add: cache_insert_def cache_trim_def Let_def)

lemma cache_insert_succeeds: "fst (cache_insert c k a) = (1 \<le> mx c)"
  by (auto simp: cache_insert_def Let_def)

lemma cache_insert_holds:
  "1 \<le> mx c \<Longrightarrow> map_of (nodes (snd (cache_insert c k a))) k = Some a"
  by (simp add: cache_insert_def cache_trim_def Let_def)

lemma cache_object_miss: "map_of (nodes c) k = None \<Longrightarrow> cache_object c k = (None, c)"
  by (simp add: cache_object_def)

lemma cache_object_hit:
  "map_of (nodes c) k = Some a \<Longrightarrow>
   cache_object c k = (Some a, c\<lparr>nodes := (k, a) # AList.delete k (nodes c)\<rparr>)"
  by (simp add: cache_object_def)

lemma fromCache_hit:
  assumes "map_of (nodes (m_assetsCache s)) path = Some a"
  shows "fromCache lac path s =
     (a, s\<lparr>m_assetsCache := (m_assetsCache s)\<lparr>nodes := (path, a) # AList.delete path (nodes (m_assetsCache s))\<rparr>\<rparr>)"
  by (simp add: fromCache_def cache_object_hit [OF assms])

lemma fromCache_miss:
  assumes "map_of (nodes (m_assetsCache s)) path = None"
  shows "fromCache lac path s =
     (length (iterators s),
      s\<lparr>iterators := iterators s @ [FolderIterator_new lac path],
        m_assetsCache := snd (cache_insert (m_assetsCache s) path (length (iterators s)))\<rparr>)"
  by (simp add: fromCache_def cache_object_miss [OF assms] Let_def split_beta)

lemma fromCache_mx: "mx (m_assetsCache (snd (fromCache lac path s))) = mx (m_assetsCache s)"
proof (cases "map_of (nodes (m_assetsCache s)) path")
  case None
  then show ?thesis by (simp add: fromCache_miss cache_insert_mx)
next
  case (Some a)
  then show ?thesis by (simp add: fromCache_hit)
qed

lemma calls_mx:
  "mx (m_assetsCache (foldl (\<lambda>s p. snd (fromCache lac p s)) s ps)) = mx (m_assetsCache s)"
  by (induction ps arbitrary: s) (simp_all add: fromCache_mx)

lemma after_calls_mx: "mx (m_assetsCache (after_calls lac env ps)) = max 50 env"
  by (simp add: after_calls_def calls_mx assets_init_def)

lemma fromCache_holds:
  assumes "1 \<le> mx (m_assetsCache s)"
  shows "map_of (nodes (m_assetsCache (snd (fromCache lac path s)))) path
     = Some (fst (fromCache lac path s))"
proof (cases "map_of (nodes (m_assetsCache s)) path")
  case None
  with assms show ?thesis by (simp add: fromCache_miss cache_insert_holds)
next
  case (Some a)
  then show ?thesis by (simp add: fromCache_hit)
qed

text \<open>
  Claim C5. In any state \<open>st\<close> of the cache and the heap: when the cache holds an entry
  for the path, \<^verbatim>\<open>fromCache\<close> returns the iterator of the entry and allocates nothing; when
  it holds none, \<^verbatim>\<open>fromCache\<close> constructs a new iterator for the path and returns it,
  whatever the capacity and so whether or not the insertion succeeds. After any calls
  \<open>ps\<close> from the initial state, the capacity of the cache is \<open>max 50 env\<close>, an insertion
  succeeds, the cache holds the returned iterator for the path after the call, and a
  second call for the same path right after returns the same iterator and allocates
  nothing.
\<close>

theorem fromCache_result:
  "(case map_of (nodes (m_assetsCache st)) path of
      Some a \<Rightarrow> fst (fromCache lac path st) = a
        \<and> iterators (snd (fromCache lac path st)) = iterators st
    | None \<Rightarrow> fst (fromCache lac path st) = length (iterators st)
        \<and> iterators (snd (fromCache lac path st)) = iterators st @ [FolderIterator_new lac path])
   \<and> mx (m_assetsCache (after_calls lac env ps)) = max 50 env
   \<and> fst (cache_insert (m_assetsCache (after_calls lac env ps)) path addr)
   \<and> map_of (nodes (m_assetsCache (snd (fromCache lac path (after_calls lac env ps))))) path
        = Some (fst (fromCache lac path (after_calls lac env ps)))
   \<and> fst (fromCache lac path (snd (fromCache lac path (after_calls lac env ps))))
        = fst (fromCache lac path (after_calls lac env ps))
   \<and> iterators (snd (fromCache lac path (snd (fromCache lac path (after_calls lac env ps)))))
        = iterators (snd (fromCache lac path (after_calls lac env ps)))"
proof -
  let ?s = "after_calls lac env ps"
  let ?s1 = "snd (fromCache lac path ?s)"
  have one: "case map_of (nodes (m_assetsCache st)) path of
      Some a \<Rightarrow> fst (fromCache lac path st) = a
        \<and> iterators (snd (fromCache lac path st)) = iterators st
    | None \<Rightarrow> fst (fromCache lac path st) = length (iterators st)
        \<and> iterators (snd (fromCache lac path st)) = iterators st @ [FolderIterator_new lac path]"
    by (cases "map_of (nodes (m_assetsCache st)) path") (simp_all add: fromCache_miss fromCache_hit)
  have cap: "mx (m_assetsCache ?s) = max 50 env"
    by (rule after_calls_mx)
  then have ge: "1 \<le> mx (m_assetsCache ?s)" by simp
  then have ins: "fst (cache_insert (m_assetsCache ?s) path addr)"
    by (simp add: cache_insert_succeeds)
  have held: "map_of (nodes (m_assetsCache ?s1)) path = Some (fst (fromCache lac path ?s))"
    using ge by (rule fromCache_holds)
  have again: "fst (fromCache lac path ?s1) = fst (fromCache lac path ?s)"
    and same: "iterators (snd (fromCache lac path ?s1)) = iterators ?s1"
    by (simp_all add: fromCache_hit [OF held])
  from one cap ins held again same show ?thesis by (intro conjI)
qed


text \<open>
  The first call for \<open>img\<close> makes the iterator at address 0; the second call returns it.
\<close>

theorem fromCache_result_witness:
  "fst (fromCache demo_listing ''img'' (after_calls demo_listing 0 [])) = 0
   \<and> fst (fromCache demo_listing ''img''
            (snd (fromCache demo_listing ''img'' (after_calls demo_listing 0 [])))) = 0
   \<and> mx (m_assetsCache (after_calls demo_listing 0 [])) = 50"
proof -
  have f: "fst (fromCache demo_listing ''img'' (after_calls demo_listing 0 [])) = 0"
    by (simp add: after_calls_def assets_init_def fromCache_def cache_object_def
        cache_insert_def cache_trim_def Let_def)
  note r = fromCache_result [where lac = demo_listing and path = "''img''" and env = 0
      and ps = "[]" and st = "assets_init 0" and addr = 0]
  from r have "fst (fromCache demo_listing ''img''
            (snd (fromCache demo_listing ''img'' (after_calls demo_listing 0 []))))
      = fst (fromCache demo_listing ''img'' (after_calls demo_listing 0 []))"
    by blast
  with f have g: "fst (fromCache demo_listing ''img''
            (snd (fromCache demo_listing ''img'' (after_calls demo_listing 0 [])))) = 0"
    by simp
  from r have "mx (m_assetsCache (after_calls demo_listing 0 [])) = max 50 0"
    by blast
  then have m: "mx (m_assetsCache (after_calls demo_listing 0 [])) = 50" by simp
  from f g m show ?thesis by (intro conjI)
qed
section \<open>Properties of the platform integration plugins\<close>







section \<open>Properties of the network information backend\<close>

lemma word_subset_and:
  fixes r s :: "'a::len word"
  shows "(r AND s) \<noteq> r \<longleftrightarrow> (\<exists>n. bit r n \<and> \<not> bit s n)"
proof
  assume "(r AND s) \<noteq> r"
  then obtain n where "bit (r AND s) n \<noteq> bit r n"
    using bit_eqI [of "r AND s" r] by blast
  then have "bit r n \<and> \<not> bit s n" by (auto simp: bit_and_iff)
  then show "\<exists>n. bit r n \<and> \<not> bit s n" ..
next
  assume "\<exists>n. bit r n \<and> \<not> bit s n"
  then obtain n where n: "bit r n" "\<not> bit s n" by blast
  then have "bit (r AND s) n \<noteq> bit r n" by (simp add: bit_and_iff)
  then show "(r AND s) \<noteq> r" by auto
qed


lemma featuresSupportedStatic_bit:
  "bit (featuresSupportedStatic uikit R T) n = (bit R n \<or> (uikit \<and> bit T n))"
  by (simp add: featuresSupportedStatic_def bit_or_iff)

text \<open>
  Claim C7. The factory returns null exactly when some bit of \<open>requiredFeatures\<close> is not
  a bit of the supported features, which are the bits of \<open>Reachability\<close> and, on UIKit
  only, those of \<open>TransportMedium\<close>; it allocates nothing then. When every bit of
  \<open>requiredFeatures\<close> is supported, it returns the address of a newly constructed
  backend.
\<close>

theorem backend_create_result:
  "(fst (backend_create uikit R T ipv4Probe ipv6Probe base requiredFeatures heap) = None)
      = (\<exists>n. bit requiredFeatures n \<and> \<not> (bit R n \<or> (uikit \<and> bit T n)))
   \<and> ((\<exists>n. bit requiredFeatures n \<and> \<not> (bit R n \<or> (uikit \<and> bit T n))) \<longrightarrow>
        backend_create uikit R T ipv4Probe ipv6Probe base requiredFeatures heap = (None, heap))
   \<and> ((\<forall>n. bit requiredFeatures n \<longrightarrow> bit R n \<or> (uikit \<and> bit T n)) \<longrightarrow>
        backend_create uikit R T ipv4Probe ipv6Probe base requiredFeatures heap =
          (Some (length heap), heap @ [backend_new uikit ipv4Probe ipv6Probe base]))"
proof -
  have s: "((requiredFeatures AND featuresSupportedStatic uikit R T) \<noteq> requiredFeatures)
      = (\<exists>n. bit requiredFeatures n \<and> \<not> (bit R n \<or> (uikit \<and> bit T n)))"
    by (simp only: word_subset_and featuresSupportedStatic_bit)
  have 1: "(fst (backend_create uikit R T ipv4Probe ipv6Probe base requiredFeatures heap) = None)
      = (\<exists>n. bit requiredFeatures n \<and> \<not> (bit R n \<or> (uikit \<and> bit T n)))"
    unfolding s [symmetric] by (simp add: backend_create_def)
  have 2: "(\<exists>n. bit requiredFeatures n \<and> \<not> (bit R n \<or> (uikit \<and> bit T n))) \<longrightarrow>
        backend_create uikit R T ipv4Probe ipv6Probe base requiredFeatures heap = (None, heap)"
    unfolding s [symmetric] by (simp add: backend_create_def)
  have 3: "(\<forall>n. bit requiredFeatures n \<longrightarrow> bit R n \<or> (uikit \<and> bit T n)) \<longrightarrow>
        backend_create uikit R T ipv4Probe ipv6Probe base requiredFeatures heap =
          (Some (length heap), heap @ [backend_new uikit ipv4Probe ipv6Probe base])"
  proof
    assume "\<forall>n. bit requiredFeatures n \<longrightarrow> bit R n \<or> (uikit \<and> bit T n)"
    then have "\<not> (\<exists>n. bit requiredFeatures n \<and> \<not> (bit R n \<or> (uikit \<and> bit T n)))" by blast
    with s have "(requiredFeatures AND featuresSupportedStatic uikit R T) = requiredFeatures"
      by blast
    then show "backend_create uikit R T ipv4Probe ipv6Probe base requiredFeatures heap =
          (Some (length heap), heap @ [backend_new uikit ipv4Probe ipv6Probe base])"
      by (simp add: backend_create_def)
  qed
  from 1 2 3 show ?thesis by (intro conjI)
qed

text \<open>
  With \<open>Reachability = 1\<close> and \<open>TransportMedium = 4\<close>, not on UIKit: asked for
  reachability the factory makes a backend, which is online as the probes say.
\<close>

theorem backend_create_result_witness:
  "backend_create False 1 4 demo_probe demo_probe demo_backend 1 []
     = (Some 0, [\<lparr>reachability = Online, transportMedium = Unknown\<rparr>])"
proof -
  have h: "\<forall>n. bit (1 :: 32 word) n \<longrightarrow> bit (1 :: 32 word) n \<or> (False \<and> bit (4 :: 32 word) n)"
    by simp
  from backend_create_result [where uikit = False and R = 1 and T = 4 and ipv4Probe = demo_probe
      and ipv6Probe = demo_probe and base = demo_backend and requiredFeatures = 1 and heap = "[]"] h
  have "backend_create False 1 4 demo_probe demo_probe demo_backend 1 []
     = (Some (length ([] :: backend list)),
        [] @ [backend_new False demo_probe demo_probe demo_backend])"
    by blast
  then show ?thesis
    by (simp add: backend_new_def reachabilityChanged_def demo_probe_def demo_backend_def)
qed

end
